theory Spec2Isabelle
  imports Complex_Main "HOL-Library.Log_Nat" "HOL-Library.Word"
begin

section \<open>JavaScript numbers\<close>

text \<open>
  Every arithmetic value of the program is a JavaScript Number, an IEEE 754 binary64
  value. A finite value is kept as the rational it denotes; the two zeros are not
  told apart (they compare equal, and the program never divides by a computed zero:
  its only divisors are the canvas dimensions). The result of an operation on finite
  values is the exact result rounded to the nearest binary64 value, ties to the even
  significand, and an infinity when the rounded magnitude reaches \<open>2 ^ 1024\<close>.
\<close>

datatype number = NaN | PosInf | NegInf | Fin rat

text \<open>
  \<open>expo x\<close> is the binary exponent of the binade of \<open>x\<close>, not below that of the
  subnormals: \<open>2 powi expo x \<le> \<bar>x\<bar> < 2 powi (expo x + 1)\<close> for a normal \<open>x\<close>. It is
  computed from the bit lengths of numerator and denominator.
\<close>

definition expo :: "rat \<Rightarrow> int" where
  "expo x = (case quotient_of \<bar>x\<bar> of (p, q) \<Rightarrow>
     (let k = bitlen p - bitlen q
      in max (- 1022) (if 2 powi k \<le> \<bar>x\<bar> then k else k - 1)))"

text \<open>Rounding to the nearest integer, a tie to the even one.\<close>

definition rne :: "rat \<Rightarrow> int" where
  "rne x = (let f = \<lfloor>x\<rfloor>; d = x - of_int f
            in if d < 1 / 2 then f else if 1 / 2 < d then f + 1
               else if even f then f else f + 1)"

text \<open>The spacing of binary64 values around \<open>x\<close>: 53 significant bits.\<close>

definition ulp :: "rat \<Rightarrow> rat" where
  "ulp x = 2 powi (expo x - 52)"

definition rnd :: "rat \<Rightarrow> rat" where
  "rnd x = of_int (rne (x / ulp x)) * ulp x"

definition round64 :: "rat \<Rightarrow> number" where
  "round64 x = (let y = rnd x
     in if 2 ^ 1024 \<le> y then PosInf else if y \<le> - (2 ^ 1024) then NegInf else Fin y)"

text \<open>The largest finite binary64 value.\<close>

definition max_double :: rat where
  "max_double = 2 ^ 1024 - 2 ^ 971"

text \<open>
  The operators \<open>+\<close>, \<open>-\<close>, \<open>*\<close> and \<open>/\<close> of ECMAScript on Numbers
  (Number::add, Number::subtract, Number::multiply, Number::divide). A zero divisor is
  read as \<open>+0\<close>.
\<close>

fun num_add :: "number \<Rightarrow> number \<Rightarrow> number" where
  "num_add NaN _ = NaN"
| "num_add _ NaN = NaN"
| "num_add PosInf NegInf = NaN"
| "num_add NegInf PosInf = NaN"
| "num_add PosInf _ = PosInf"
| "num_add _ PosInf = PosInf"
| "num_add NegInf _ = NegInf"
| "num_add _ NegInf = NegInf"
| "num_add (Fin a) (Fin b) = round64 (a + b)"

fun num_neg :: "number \<Rightarrow> number" where
  "num_neg NaN = NaN"
| "num_neg PosInf = NegInf"
| "num_neg NegInf = PosInf"
| "num_neg (Fin a) = Fin (- a)"

definition num_sub :: "number \<Rightarrow> number \<Rightarrow> number" where
  "num_sub x y = num_add x (num_neg y)"

fun num_mul :: "number \<Rightarrow> number \<Rightarrow> number" where
  "num_mul NaN _ = NaN"
| "num_mul _ NaN = NaN"
| "num_mul PosInf PosInf = PosInf"
| "num_mul PosInf NegInf = NegInf"
| "num_mul NegInf PosInf = NegInf"
| "num_mul NegInf NegInf = PosInf"
| "num_mul PosInf (Fin b) = (if b = 0 then NaN else if 0 < b then PosInf else NegInf)"
| "num_mul NegInf (Fin b) = (if b = 0 then NaN else if 0 < b then NegInf else PosInf)"
| "num_mul (Fin a) PosInf = (if a = 0 then NaN else if 0 < a then PosInf else NegInf)"
| "num_mul (Fin a) NegInf = (if a = 0 then NaN else if 0 < a then NegInf else PosInf)"
| "num_mul (Fin a) (Fin b) = round64 (a * b)"

fun num_div :: "number \<Rightarrow> number \<Rightarrow> number" where
  "num_div NaN _ = NaN"
| "num_div _ NaN = NaN"
| "num_div PosInf PosInf = NaN"
| "num_div PosInf NegInf = NaN"
| "num_div NegInf PosInf = NaN"
| "num_div NegInf NegInf = NaN"
| "num_div PosInf (Fin b) = (if 0 \<le> b then PosInf else NegInf)"
| "num_div NegInf (Fin b) = (if 0 \<le> b then NegInf else PosInf)"
| "num_div (Fin a) PosInf = Fin 0"
| "num_div (Fin a) NegInf = Fin 0"
| "num_div (Fin a) (Fin b) =
     (if b = 0 then (if a = 0 then NaN else if 0 < a then PosInf else NegInf)
      else round64 (a / b))"

text \<open>The comparisons \<open><\<close> and \<open><=\<close>: false as soon as an operand is NaN.\<close>

fun num_less :: "number \<Rightarrow> number \<Rightarrow> bool" where
  "num_less NaN _ = False"
| "num_less _ NaN = False"
| "num_less PosInf _ = False"
| "num_less _ PosInf = True"
| "num_less _ NegInf = False"
| "num_less NegInf _ = True"
| "num_less (Fin a) (Fin b) = (a < b)"

fun num_le :: "number \<Rightarrow> number \<Rightarrow> bool" where
  "num_le NaN _ = False"
| "num_le _ NaN = False"
| "num_le _ PosInf = True"
| "num_le PosInf _ = False"
| "num_le NegInf _ = True"
| "num_le _ NegInf = False"
| "num_le (Fin a) (Fin b) = (a \<le> b)"

text \<open>
  A decimal literal of the source text denotes the nearest Number, and so does an
  integer (a canvas dimension, an array index) where it is used as a Number.
\<close>

definition num_lit :: "rat \<Rightarrow> number" where
  "num_lit r = round64 r"

definition number_of_nat :: "nat \<Rightarrow> number" where
  "number_of_nat n = round64 (of_nat n)"

section \<open>The session state\<close>

text \<open>
  The script \<open>terrain_extractor_app.js\<close> keeps its state in the globals \<open>canvas\<close>,
  \<open>ctx\<close>, \<open>image\<close>, \<open>geoBounds\<close> and \<open>picked\<close>. The model starts where
  \<open>window.onload\<close> has bound \<open>canvas\<close> and \<open>ctx\<close>: no handler is installed before.
  The bitmap of the 2d context is the array that \<open>getImageData\<close> hands out, four bytes
  (red, green, blue, alpha) per pixel, row by row. The files that \<open>saveAs\<close> writes
  are collected in \<open>downloads\<close>; a file of JSON text is kept as the JSON value that
  the text denotes.
\<close>

datatype js_error = TypeError

text \<open>
  The values that \<open>exportGeoJSON\<close> of \<open>lib/export.ts\<close> receives, builds and
  serialises. An object is the list of its properties in their order (for an object
  literal, the order written); a string is the list of its characters.
\<close>

datatype jsvalue =
    JUndefined
  | JNull
  | JBool bool
  | JNumber number
  | JString string
  | JArray "jsvalue list"
  | JObject "(string \<times> jsvalue) list"

record GeoBounds =
  north :: number
  south :: number
  east :: number
  west :: number

record PickedFeature =
  color :: "int \<times> int \<times> int"
  label :: string
  contours :: "number list list list"

record saved_file =
  file_name :: string
  mime_type :: string
  json_of :: jsvalue

record session =
  canvas_width :: nat
  canvas_height :: nat
  canvas_data :: "8 word list"
  image_loaded :: bool
  geoBounds :: "GeoBounds option"
  picked :: "PickedFeature list"
  downloads :: "saved_file list"

text \<open>
  The state in which the script starts
  (\<^verbatim>\<open>image = null, geoBounds = null, picked = []\<close>), on a canvas of the given bitmap.
\<close>

definition start :: "nat \<Rightarrow> nat \<Rightarrow> 8 word list \<Rightarrow> session" where
  "start w h d =
     \<lparr>canvas_width = w, canvas_height = h, canvas_data = d, image_loaded = False,
      geoBounds = None, picked = [], downloads = []\<rparr>"

subsection \<open>setGeoBounds and pixelToLatLon\<close>

text \<open>
  \<^verbatim>\<open>function setGeoBounds(north, south, east, west) { geoBounds = { north, south, east, west }; }\<close>
\<close>

definition setGeoBounds :: "number \<Rightarrow> number \<Rightarrow> number \<Rightarrow> number \<Rightarrow> session \<Rightarrow> js_error + session" where
  "setGeoBounds n s e w st =
     Inr (st\<lparr>geoBounds := Some \<lparr>north = n, south = s, east = e, west = w\<rparr>\<rparr>)"

text \<open>The invariant that the data model asks of a GeoBounds value.\<close>

definition valid_bounds :: "GeoBounds \<Rightarrow> bool" where
  "valid_bounds b = (num_less (west b) (east b) \<and> num_less (south b) (north b))"

text \<open>
  \<open>pixelToLatLon\<close> destructures \<open>geoBounds\<close> first: while that is still \<open>null\<close> the
  call throws a TypeError. Nothing else in the body can fail, and nothing looks at the
  range of \<open>x\<close> and \<open>y\<close>.
\<close>

definition pixelToLatLon :: "session \<Rightarrow> number \<Rightarrow> number \<Rightarrow> js_error + (number \<times> number)" where
  "pixelToLatLon st x y =
     (case geoBounds st of
        None \<Rightarrow> Inl TypeError
      | Some b \<Rightarrow>
          (let lon = num_add (west b)
                       (num_mul (num_div x (number_of_nat (canvas_width st)))
                                (num_sub (east b) (west b)));
               lat = num_sub (north b)
                       (num_mul (num_div y (number_of_nat (canvas_height st)))
                                (num_sub (north b) (south b)))
           in Inr (lon, lat)))"

subsection \<open>maskByColor\<close>

text \<open>
  An element of the image data read at an index: a byte as a Number, or
  \<open>undefined\<close> (here \<open>None\<close>) past the end. A comparison with \<open>undefined\<close> is false.
\<close>

definition data_at :: "8 word list \<Rightarrow> nat \<Rightarrow> int option" where
  "data_at d j = (if j < length d then Some (uint (d ! j)) else None)"

fun inside :: "int \<Rightarrow> int \<Rightarrow> int option \<Rightarrow> bool" where
  "inside lo hi None = False"
| "inside lo hi (Some v) = (lo \<le> v \<and> v \<le> hi)"

text \<open>The body of the loop of \<open>maskByColor\<close> at index \<open>i\<close>: the value stored in \<open>mask[i]\<close>.\<close>

definition mask_entry :: "8 word list \<Rightarrow> int \<times> int \<times> int \<Rightarrow> int \<times> int \<times> int \<Rightarrow> nat \<Rightarrow> 8 word" where
  "mask_entry d lower upper i =
     (case (lower, upper) of ((l0, l1, l2), (u0, u1, u2)) \<Rightarrow>
        (let j = i * 4; r = data_at d j; g = data_at d (j + 1); b = data_at d (j + 2)
         in if inside l0 u0 r \<and> inside l1 u1 g \<and> inside l2 u2 b then 1 else 0))"

text \<open>\<^verbatim>\<open>for (let i = 0; i < mask.length; i++) { ... mask[i] = ... }\<close>\<close>

function mask_loop :: "8 word list \<Rightarrow> int \<times> int \<times> int \<Rightarrow> int \<times> int \<times> int \<Rightarrow> nat \<Rightarrow> 8 word list \<Rightarrow> 8 word list" where
  "mask_loop d lower upper i msk =
     (if i < length msk
      then mask_loop d lower upper (Suc i) (msk[i := mask_entry d lower upper i])
      else msk)"
  by pat_completeness auto
termination
  by (relation "measure (\<lambda>(d, lower, upper, i, msk). length msk - i)") auto

definition maskByColor :: "session \<Rightarrow> int \<times> int \<times> int \<Rightarrow> int \<times> int \<times> int \<Rightarrow> 8 word list" where
  "maskByColor st lower upper =
     mask_loop (canvas_data st) lower upper 0
       (replicate (canvas_width st * canvas_height st) 0)"

text \<open>\<^verbatim>\<open>function dummyFindContours(mask) { return []; }\<close>\<close>

definition dummyFindContours :: "8 word list \<Rightarrow> number list list list" where
  "dummyFindContours msk = []"

subsection \<open>onImageClick\<close>

text \<open>
  A click brings the pixel position that \<open>getImageData\<close> receives and what the user
  answers to \<open>prompt\<close> (\<open>None\<close>: the dialogue was cancelled). Outside the bitmap
  \<open>getImageData\<close> yields transparent black.
\<close>

record click =
  click_x :: int
  click_y :: int
  reply :: "string option"

definition byte_or_zero :: "8 word list \<Rightarrow> nat \<Rightarrow> int" where
  "byte_or_zero d j = (case data_at d j of Some v \<Rightarrow> v | None \<Rightarrow> 0)"

definition clicked_rgb :: "session \<Rightarrow> int \<Rightarrow> int \<Rightarrow> int \<times> int \<times> int" where
  "clicked_rgb st x y =
     (if 0 \<le> x \<and> x < int (canvas_width st) \<and> 0 \<le> y \<and> y < int (canvas_height st)
      then (let j = 4 * (nat y * canvas_width st + nat x)
            in (byte_or_zero (canvas_data st) j,
                byte_or_zero (canvas_data st) (j + 1),
                byte_or_zero (canvas_data st) (j + 2)))
      else (0, 0, 0))"

definition tolerance :: int where
  "tolerance = 30"

text \<open>
  \<^verbatim>\<open>const lower = rgb.map(v => Math.max(0, v - tolerance));\<close>
  \<^verbatim>\<open>const upper = rgb.map(v => Math.min(255, v + tolerance));\<close>
\<close>

definition lower_of :: "int \<Rightarrow> int \<times> int \<times> int \<Rightarrow> int \<times> int \<times> int" where
  "lower_of tol rgb = (case rgb of (r, g, b) \<Rightarrow> (max 0 (r - tol), max 0 (g - tol), max 0 (b - tol)))"

definition upper_of :: "int \<Rightarrow> int \<times> int \<times> int \<Rightarrow> int \<times> int \<times> int" where
  "upper_of tol rgb = (case rgb of (r, g, b) \<Rightarrow> (min 255 (r + tol), min 255 (g + tol), min 255 (b + tol)))"

definition onImageClick :: "click \<Rightarrow> session \<Rightarrow> session" where
  "onImageClick e st =
     (if \<not> image_loaded st \<or> geoBounds st = None then st
      else
        (let rgb = clicked_rgb st (click_x e) (click_y e)
         in case reply e of
              None \<Rightarrow> st
            | Some lbl \<Rightarrow>
                if lbl = [] then st
                else
                  (let lower = lower_of tolerance rgb;
                       upper = upper_of tolerance rgb;
                       msk = maskByColor st lower upper;
                       cs = dummyFindContours msk
                   in st\<lparr>picked := picked st @ [\<lparr>color = rgb, label = lbl, contours = cs\<rparr>]\<rparr>)))"

text \<open>A run of clicks, one after the other.\<close>

fun clicks :: "click list \<Rightarrow> session \<Rightarrow> session" where
  "clicks [] st = st"
| "clicks (e # es) st = clicks es (onImageClick e st)"

section \<open>The GeoJSON exporter\<close>

text \<open>
  \<open>JSON.stringify(v, null, 2)\<close>, as the JSON value that the text it returns denotes
  (the white space and the digits of a number are not modelled). A Number that is not
  finite is written \<open>null\<close>; \<open>undefined\<close> is written \<open>null\<close> as an element of an array,
  and a property whose value is \<open>undefined\<close> is left out.
\<close>

primrec JSON_stringify :: "jsvalue \<Rightarrow> jsvalue" where
  "JSON_stringify JUndefined = JUndefined"
| "JSON_stringify JNull = JNull"
| "JSON_stringify (JBool t) = JBool t"
| "JSON_stringify (JNumber n) = (case n of Fin q \<Rightarrow> JNumber n | _ \<Rightarrow> JNull)"
| "JSON_stringify (JString s) = JString s"
| "JSON_stringify (JArray xs) =
     JArray (map (\<lambda>v. if v = JUndefined then JNull else v) (map JSON_stringify xs))"
| "JSON_stringify (JObject ps) =
     JObject (filter (\<lambda>p. snd p \<noteq> JUndefined) (map (map_prod id JSON_stringify) ps))"

text \<open>
  The decimal numeral of a colour channel: what \<open>color.join(",")\<close> writes for an
  integer below \<open>10 ^ 21\<close>.
\<close>

fun decimal :: "nat \<Rightarrow> string" where
  "decimal n = (if n < 10 then [''0123456789'' ! n]
                else decimal (n div 10) @ [''0123456789'' ! (n mod 10)])"

fun join :: "string \<Rightarrow> string list \<Rightarrow> string" where
  "join sep [] = []"
| "join sep [s] = s"
| "join sep (s # t # ss) = s @ sep @ join sep (t # ss)"

definition rgb_string :: "nat \<times> nat \<times> nat \<Rightarrow> string" where
  "rgb_string c = (case c of (r, g, b) \<Rightarrow>
     ''rgb('' @ join '','' [decimal r, decimal g, decimal b] @ '')'')"

text \<open>
  \<open>Array.prototype.map\<close> with a callback that may throw: the elements are visited in
  order and the first exception ends the call.
\<close>

fun traverse :: "('a \<Rightarrow> js_error + 'b) \<Rightarrow> 'a list \<Rightarrow> js_error + 'b list" where
  "traverse f [] = Inr []"
| "traverse f (x # xs) =
     (case f x of
        Inl e \<Rightarrow> Inl e
      | Inr y \<Rightarrow> (case traverse f xs of Inl e \<Rightarrow> Inl e | Inr ys \<Rightarrow> Inr (y # ys)))"

text \<open>
  \<^verbatim>\<open>([x, y]) => [x, y]\<close>. The array pattern iterates over its argument: an array
  gives its elements and a string its characters; any other value of this model is not
  iterable and the pattern throws a TypeError. \<open>x\<close> and \<open>y\<close> are the first two items;
  one that is missing is \<open>undefined\<close>, and any further one is dropped.
\<close>

definition items :: "jsvalue \<Rightarrow> js_error + jsvalue list" where
  "items e =
     (case e of
        JArray xs \<Rightarrow> Inr xs
      | JString s \<Rightarrow> Inr (map (\<lambda>c. JString [c]) s)
      | _ \<Rightarrow> Inl TypeError)"

definition elem :: "jsvalue list \<Rightarrow> nat \<Rightarrow> jsvalue" where
  "elem xs i = (if i < length xs then xs ! i else JUndefined)"

definition point :: "jsvalue \<Rightarrow> js_error + jsvalue" where
  "point e =
     (case items e of
        Inl err \<Rightarrow> Inl err
      | Inr xs \<Rightarrow> Inr (JArray [elem xs 0, elem xs 1]))"

text \<open>
  \<open>polygons.map(...)\<close> and \<open>ring.map(...)\<close>: an array gives its elements; any other
  value of this model has no method \<open>map\<close>, and the call throws a TypeError. What the
  arguments are, the declared type \<open>number[][][]\<close> does not enforce when the program
  runs.
\<close>

definition elements :: "jsvalue \<Rightarrow> js_error + jsvalue list" where
  "elements v = (case v of JArray xs \<Rightarrow> Inr xs | _ \<Rightarrow> Inl TypeError)"

definition feature :: "nat \<times> nat \<times> nat \<Rightarrow> nat \<Rightarrow> jsvalue \<Rightarrow> js_error + jsvalue" where
  "feature c i ring =
     (case elements ring of
        Inl err \<Rightarrow> Inl err
      | Inr entries \<Rightarrow>
          (case traverse point entries of
             Inl err \<Rightarrow> Inl err
           | Inr pts \<Rightarrow>
               Inr (JObject [
                 (''type'', JString ''Feature''),
                 (''geometry'', JObject [
                    (''type'', JString ''Polygon''),
                    (''coordinates'', JArray [JArray pts])]),
                 (''properties'', JObject [
                    (''id'', JNumber (number_of_nat i)),
                    (''color'', JString (rgb_string c))])])))"

definition features :: "jsvalue \<Rightarrow> nat \<times> nat \<times> nat \<Rightarrow> js_error + jsvalue list" where
  "features polygons c =
     (case elements polygons of
        Inl err \<Rightarrow> Inl err
      | Inr rings \<Rightarrow> traverse (\<lambda>(i, ring). feature c i ring) (enumerate 0 rings))"

definition geojson :: "jsvalue \<Rightarrow> nat \<times> nat \<times> nat \<Rightarrow> js_error + jsvalue" where
  "geojson polygons c =
     (case features polygons c of
        Inl err \<Rightarrow> Inl err
      | Inr fs \<Rightarrow>
          Inr (JObject [(''type'', JString ''FeatureCollection''), (''features'', JArray fs)]))"

text \<open>
  An exception leaves \<open>exportGeoJSON\<close> before \<open>saveAs\<close> is reached, so nothing is
  saved then; otherwise \<open>saveAs\<close> adds the file to the downloads.
\<close>

definition exportGeoJSON ::
  "jsvalue \<Rightarrow> nat \<times> nat \<times> nat \<Rightarrow> session \<Rightarrow> js_error + session" where
  "exportGeoJSON polygons c st =
     (case geojson polygons c of
        Inl err \<Rightarrow> Inl err
      | Inr doc \<Rightarrow>
          (let blob = JSON_stringify doc
           in Inr (st\<lparr>downloads := downloads st @
                [\<lparr>file_name = ''features.geojson'', mime_type = ''application/json'',
                  json_of = blob\<rparr>]\<rparr>)))"

text \<open>The file that a call has written last, if it returned.\<close>

definition exported_file :: "js_error + session \<Rightarrow> saved_file option" where
  "exported_file r =
     (case r of
        Inl e \<Rightarrow> None
      | Inr st \<Rightarrow> (if downloads st = [] then None else Some (last (downloads st))))"

text \<open>
  A 2-tuple of Numbers, and one of finite Numbers; a ring of such 2-tuples; a contours
  argument that is a sequence of such rings.
\<close>

fun is_pair :: "jsvalue \<Rightarrow> bool" where
  "is_pair (JArray [JNumber x, JNumber y]) = True"
| "is_pair _ = False"

fun is_finite_pair :: "jsvalue \<Rightarrow> bool" where
  "is_finite_pair (JArray [JNumber (Fin x), JNumber (Fin y)]) = True"
| "is_finite_pair _ = False"

definition ring_of :: "(jsvalue \<Rightarrow> bool) \<Rightarrow> jsvalue \<Rightarrow> bool" where
  "ring_of entry ring = (case ring of JArray entries \<Rightarrow> list_all entry entries | _ \<Rightarrow> False)"

definition two_tuples :: "jsvalue \<Rightarrow> bool" where
  "two_tuples polygons =
     (case polygons of JArray rings \<Rightarrow> list_all (ring_of is_pair) rings | _ \<Rightarrow> False)"

definition finite_two_tuples :: "jsvalue \<Rightarrow> bool" where
  "finite_two_tuples polygons =
     (case polygons of JArray rings \<Rightarrow> list_all (ring_of is_finite_pair) rings | _ \<Rightarrow> False)"

text \<open>An entry that the array pattern can iterate over.\<close>

definition iterable :: "jsvalue \<Rightarrow> bool" where
  "iterable e = (case e of JArray xs \<Rightarrow> True | JString s \<Rightarrow> True | _ \<Rightarrow> False)"

section \<open>Rounding\<close>

text \<open>
  Facts about the rounding of the Number model: the exponent brackets its argument,
  \<open>rnd\<close> is monotone and odd, keeps every binary64 value, and stays within the binade
  of its argument.
\<close>

lemma pow2_pos: "0 < (2::rat) powi k"
  by simp

lemma pow2_less_D: "(2::rat) powi m < 2 powi n \<Longrightarrow> m < n"
proof (rule ccontr)
  assume a: "(2::rat) powi m < 2 powi n" and "\<not> m < n"
  then have "n \<le> m" by simp
  then have "(2::rat) powi n \<le> 2 powi m" by (intro power_int_increasing) simp_all
  with a show False by simp
qed

lemma expo_ge: "- 1022 \<le> expo x"
  by (simp add: expo_def Let_def split: prod.splits)

lemma bitlen_upper: "0 < n \<Longrightarrow> (of_int n :: rat) < 2 powi bitlen n"
proof -
  assume n: "0 < n"
  then have "n < 2 ^ nat (bitlen n)" using bitlen_bounds by blast
  then have "(of_int n :: rat) < of_int (2 ^ nat (bitlen n))" by (simp only: of_int_less_iff)
  then show ?thesis using bitlen_nonneg [of n] by (simp add: power_int_def)
qed

lemma bitlen_lower: "0 < n \<Longrightarrow> 2 powi (bitlen n - 1) \<le> (of_int n :: rat)"
proof -
  assume n: "0 < n"
  then have b: "1 \<le> bitlen n" by (auto simp: bitlen_alt_def)
  from n have "2 ^ nat (bitlen n - 1) \<le> n" using bitlen_bounds by blast
  then have "(of_int (2 ^ nat (bitlen n - 1)) :: rat) \<le> of_int n" by (simp only: of_int_le_iff)
  then show ?thesis using b by (simp add: power_int_def)
qed

lemma quot_bounds:
  assumes "0 < x" and "quotient_of x = (p, q)"
  shows "2 powi (bitlen p - bitlen q - 1) < x" and "x < 2 powi (bitlen p - bitlen q + 1)"
proof -
  have q: "0 < q" using assms(2) by (rule quotient_of_denom_pos)
  have x: "x = of_int p / of_int q" using assms(2) by (rule quotient_of_div)
  have p: "0 < p" using assms(1) q x by (simp add: zero_less_divide_iff)
  have "2 powi (bitlen p - 1) / 2 powi bitlen q < (of_int p :: rat) / of_int q"
    using bitlen_lower [OF p] bitlen_upper [OF q] q
    by (intro frac_less2) simp_all
  then show "2 powi (bitlen p - bitlen q - 1) < x"
    by (simp add: x power_int_diff)
  have "(of_int p :: rat) / of_int q < 2 powi bitlen p / 2 powi (bitlen q - 1)"
    using bitlen_upper [OF p] bitlen_lower [OF q] p q
    by (intro frac_less) simp_all
  then show "x < 2 powi (bitlen p - bitlen q + 1)"
    by (simp add: x power_int_diff power_int_add)
qed

lemma expo_upper: "x \<noteq> 0 \<Longrightarrow> \<bar>x\<bar> < 2 powi (expo x + 1)"
proof -
  assume "x \<noteq> 0"
  then have a: "0 < \<bar>x\<bar>" by simp
  obtain p q where pq: "quotient_of \<bar>x\<bar> = (p, q)" by (cases "quotient_of \<bar>x\<bar>")
  let ?k = "bitlen p - bitlen q"
  let ?e = "if 2 powi ?k \<le> \<bar>x\<bar> then ?k else ?k - 1"
  have "\<bar>x\<bar> < 2 powi (?e + 1)"
    using quot_bounds(2) [OF a pq] by (auto simp: not_le)
  also have "2 powi (?e + 1) \<le> (2::rat) powi (max (- 1022) ?e + 1)"
    by (intro power_int_increasing) simp_all
  finally show ?thesis by (simp add: expo_def pq Let_def)
qed

lemma expo_lower: "x \<noteq> 0 \<Longrightarrow> - 1022 < expo x \<Longrightarrow> 2 powi expo x \<le> \<bar>x\<bar>"
proof -
  assume x: "x \<noteq> 0" and e: "- 1022 < expo x"
  obtain p q where pq: "quotient_of \<bar>x\<bar> = (p, q)" by (cases "quotient_of \<bar>x\<bar>")
  let ?k = "bitlen p - bitlen q"
  let ?e = "if 2 powi ?k \<le> \<bar>x\<bar> then ?k else ?k - 1"
  have ex: "expo x = max (- 1022) ?e" by (simp add: expo_def pq Let_def)
  with e have ee: "expo x = ?e" by (simp add: max_def split: if_splits)
  have x0: "0 < \<bar>x\<bar>" using x by simp
  show ?thesis using quot_bounds(1) [OF x0 pq] unfolding ee by (auto simp: less_imp_le)
qed

lemma expo_eqI:
  assumes "2 powi e \<le> \<bar>x\<bar>" and "\<bar>x\<bar> < 2 powi (e + 1)" and "- 1022 \<le> e"
  shows "expo x = e"
proof -
  have "0 < \<bar>x\<bar>" using pow2_pos [of e] assms(1) by (rule less_le_trans)
  then have x0: "x \<noteq> 0" by simp
  have u: "\<bar>x\<bar> < 2 powi (expo x + 1)" using expo_upper [OF x0] .
  have "(2::rat) powi e < 2 powi (expo x + 1)" using assms(1) u by simp
  then have 1: "e < expo x + 1" by (rule pow2_less_D)
  show ?thesis
  proof (cases "- 1022 < expo x")
    case True
    have "(2::rat) powi expo x < 2 powi (e + 1)" using expo_lower [OF x0 True] assms(2) by simp
    then have "expo x < e + 1" by (rule pow2_less_D)
    with 1 show ?thesis by simp
  next
    case False
    then show ?thesis using expo_ge [of x] 1 assms(3) by simp
  qed
qed

lemma rne_bounds: "\<lfloor>a\<rfloor> \<le> rne a \<and> rne a \<le> \<lfloor>a\<rfloor> + 1"
  by (simp add: rne_def Let_def)

lemma rne_mono: 
  assumes "a \<le> b" shows "rne a \<le> rne b"
proof (cases "\<lfloor>a\<rfloor> = \<lfloor>b\<rfloor>")
  case True
  then have "a - of_int \<lfloor>a\<rfloor> \<le> b - of_int \<lfloor>b\<rfloor>" using assms by simp
  then show ?thesis using True by (auto simp: rne_def Let_def)
next
  case False
  then have "\<lfloor>a\<rfloor> < \<lfloor>b\<rfloor>" using assms floor_mono [of a b] by simp
  then show ?thesis using rne_bounds [of a] rne_bounds [of b] by linarith
qed

lemma rne_of_int: "rne (of_int n) = n"
  by (simp add: rne_def)

lemma floor_uminus: "\<lfloor>- a\<rfloor> = (if a = of_int \<lfloor>a\<rfloor> then - \<lfloor>a\<rfloor> else - \<lfloor>a\<rfloor> - 1)" for a :: rat
proof -
  have "- \<lfloor>- a\<rfloor> = (if a = of_int \<lfloor>a\<rfloor> then \<lfloor>a\<rfloor> else \<lfloor>a\<rfloor> + 1)"
    using ceiling_altdef [of a] by (simp add: ceiling_def)
  then have "\<lfloor>- a\<rfloor> = - (if a = of_int \<lfloor>a\<rfloor> then \<lfloor>a\<rfloor> else \<lfloor>a\<rfloor> + 1)"
    by (metis add.inverse_inverse)
  then show ?thesis by simp
qed

lemma rne_minus: "rne (- a) = - rne a"
proof (cases "a = of_int \<lfloor>a\<rfloor>")
  case True
  then obtain n where "a = of_int n" ..
  then show ?thesis using rne_of_int [of n] rne_of_int [of "- n"] by simp
next
  case False
  then show ?thesis
    by (auto simp: rne_def Let_def floor_uminus)
qed

lemma expo_minus: "expo (- x) = expo x"
  by (simp add: expo_def)

lemma ulp_pos: "0 < ulp x"
  by (simp add: ulp_def)

lemma ulp_minus: "ulp (- x) = ulp x"
  by (simp add: ulp_def expo_minus)

lemma rnd_0: "rnd 0 = 0"
  by (simp add: rnd_def rne_def)

lemma rnd_minus: "rnd (- x) = - rnd x"
  by (simp add: rnd_def ulp_minus rne_minus)

lemma rnd_nonneg: "0 \<le> x \<Longrightarrow> 0 \<le> rnd x"
proof -
  assume "0 \<le> x"
  then have "0 \<le> x / ulp x" using ulp_pos [of x] by simp
  then have "rne 0 \<le> rne (x / ulp x)" by (rule rne_mono)
  then have "0 \<le> rne (x / ulp x)" using rne_of_int [of 0] by simp
  then show ?thesis using ulp_pos [of x] by (simp add: rnd_def)
qed

lemma rnd_upper: 
  assumes "0 < x" shows "rnd x \<le> 2 powi (expo x + 1)"
proof -
  have "x < 2 powi (expo x + 1)" using expo_upper [of x] assms by simp
  also have "(2::rat) powi (expo x + 1) = of_int (2 ^ 53) * ulp x"
    by (simp add: ulp_def power_int_add power_int_diff)
  finally have "x / ulp x \<le> of_int (2 ^ 53)" using ulp_pos [of x] by (simp add: pos_divide_le_eq)
  then have "rne (x / ulp x) \<le> rne (of_int (2 ^ 53))" by (rule rne_mono)
  then have "rne (x / ulp x) \<le> 2 ^ 53" by (simp only: rne_of_int)
  then have "(of_int (rne (x / ulp x)) :: rat) \<le> of_int (2 ^ 53)" by (simp only: of_int_le_iff)
  then have "rnd x \<le> of_int (2 ^ 53) * ulp x" unfolding rnd_def using ulp_pos [of x] by (simp only: mult_le_cancel_right_pos)
  then show ?thesis by (simp add: ulp_def power_int_add power_int_diff)
qed

lemma rnd_lower: 
  assumes "0 < x" and "- 1022 < expo x" shows "2 powi expo x \<le> rnd x"
proof -
  have "2 powi expo x \<le> x" using expo_lower [of x] assms by simp
  moreover have "(2::rat) powi expo x = of_int (2 ^ 52) * ulp x"
    by (simp add: ulp_def power_int_add power_int_diff)
  ultimately have "of_int (2 ^ 52) \<le> x / ulp x" using ulp_pos [of x] by (simp add: pos_le_divide_eq)
  then have "rne (of_int (2 ^ 52)) \<le> rne (x / ulp x)" by (rule rne_mono)
  then have "2 ^ 52 \<le> rne (x / ulp x)" by (simp only: rne_of_int)
  then have "(of_int (2 ^ 52) :: rat) \<le> of_int (rne (x / ulp x))" by (simp only: of_int_le_iff)
  then have "of_int (2 ^ 52) * ulp x \<le> rnd x" unfolding rnd_def using ulp_pos [of x] by (simp only: mult_le_cancel_right_pos)
  then show ?thesis by (simp add: ulp_def power_int_add power_int_diff)
qed

lemma expo_mono:
  assumes "x \<noteq> 0" and "\<bar>x\<bar> \<le> \<bar>y\<bar>" shows "expo x \<le> expo y"
proof (cases "- 1022 < expo x")
  case True
  have y: "y \<noteq> 0" using assms by auto
  have "2 powi expo x \<le> \<bar>x\<bar>" using expo_lower [OF assms(1) True] .
  also have "\<bar>x\<bar> \<le> \<bar>y\<bar>" by fact
  also have "\<bar>y\<bar> < 2 powi (expo y + 1)" using expo_upper [OF y] .
  finally have "expo x < expo y + 1" by (rule pow2_less_D)
  then show ?thesis by simp
next
  case False
  then show ?thesis using expo_ge [of x] expo_ge [of y] by simp
qed

lemma rnd_mono_pos:
  assumes "0 < x" and "x \<le> y" shows "rnd x \<le> rnd y"
proof (cases "expo x = expo y")
  case True
  then have u: "ulp x = ulp y" by (simp add: ulp_def)
  have "x / ulp y \<le> y / ulp y" using assms(2) ulp_pos [of y] by (simp add: divide_right_mono)
  then have "rne (x / ulp y) \<le> rne (y / ulp y)" by (rule rne_mono)
  then have "(of_int (rne (x / ulp y)) :: rat) \<le> of_int (rne (y / ulp y))" by (simp only: of_int_le_iff)
  then show ?thesis unfolding rnd_def u using ulp_pos [of y] by (simp only: mult_le_cancel_right_pos)
next
  case False
  have "expo x \<le> expo y" using expo_mono [of x y] assms by simp
  with False have lt: "expo x + 1 \<le> expo y" by simp
  then have n: "- 1022 < expo y" using expo_ge [of x] by simp
  have "rnd x \<le> 2 powi (expo x + 1)" using rnd_upper [OF assms(1)] .
  also have "\<dots> \<le> 2 powi expo y" using lt by (intro power_int_increasing) simp_all
  also have "\<dots> \<le> rnd y" using rnd_lower [of y] assms n by simp
  finally show ?thesis .
qed

lemma rnd_mono: 
  assumes "x \<le> y" shows "rnd x \<le> rnd y"
proof -
  consider "0 < x" | "x \<le> 0" "0 \<le> y" | "y < 0" by linarith
  then show ?thesis
  proof cases
    case 1
    then show ?thesis using assms by (rule rnd_mono_pos)
  next
    case 2
    then have "rnd x \<le> 0" using rnd_nonneg [of "- x"] by (simp add: rnd_minus)
    also have "0 \<le> rnd y" using 2 by (simp add: rnd_nonneg)
    finally show ?thesis .
  next
    case 3
    then have "rnd (- y) \<le> rnd (- x)" using assms by (intro rnd_mono_pos) simp_all
    then show ?thesis by (simp add: rnd_minus)
  qed
qed


lemma rnd_exact:
  assumes "x = of_int m * 2 powi k" and "\<bar>m\<bar> < 2 ^ 53" and "- 1074 \<le> k"
  shows "rnd x = x"
proof (cases "x = 0")
  case True
  then show ?thesis by (simp add: rnd_0)
next
  case False
  have "\<bar>x\<bar> = of_int \<bar>m\<bar> * 2 powi k" by (simp add: assms(1) abs_mult)
  also have "\<dots> < of_int (2 ^ 53) * 2 powi k"
    using assms(2) by (simp only: mult_less_cancel_right_pos pow2_pos of_int_less_iff)
  also have "\<dots> = 2 powi (k + 53)" by (simp add: power_int_add)
  finally have ub: "\<bar>x\<bar> < 2 powi (k + 53)" .
  have le: "expo x - 52 \<le> k"
  proof (cases "- 1022 < expo x")
    case True
    have "2 powi expo x \<le> \<bar>x\<bar>" using expo_lower [OF False True] .
    with ub have "(2::rat) powi expo x < 2 powi (k + 53)" by simp
    then have "expo x < k + 53" by (rule pow2_less_D)
    then show ?thesis by simp
  next
    case False
    then have "expo x = - 1022" using expo_ge [of x] by simp
    then show ?thesis using assms(3) by simp
  qed
  define j where "j = nat (k - (expo x - 52))"
  have k: "k = (expo x - 52) + int j" using le by (simp add: j_def)
  have "(2::rat) powi k = 2 powi (expo x - 52) * 2 ^ j"
    by (subst k) (simp add: power_int_add)
  then have "of_int m * 2 powi k = of_int (m * 2 ^ j) * ulp x"
    by (simp add: ulp_def)
  with assms(1) have xe: "x = of_int (m * 2 ^ j) * ulp x" by (rule trans)
  have "of_int (m * 2 ^ j) * ulp x / ulp x = (of_int (m * 2 ^ j) :: rat)"
    using ulp_pos [of x] by simp
  with xe have "x / ulp x = of_int (m * 2 ^ j)" by metis
  then have "rne (x / ulp x) = m * 2 ^ j" by (simp only: rne_of_int)
  then have "rnd x = of_int (m * 2 ^ j) * ulp x" by (simp only: rnd_def)
  with xe show ?thesis by simp
qed

lemma round64_exact:
  assumes "x = of_int m * 2 powi k" and "\<bar>m\<bar> < 2 ^ 53" and "- 1074 \<le> k" and "k \<le> 971"
  shows "round64 x = Fin x"
proof -
  have "\<bar>x\<bar> = of_int \<bar>m\<bar> * 2 powi k" by (simp add: assms(1) abs_mult)
  also have "\<dots> < of_int (2 ^ 53) * 2 powi k"
    using assms(2) by (simp only: mult_less_cancel_right_pos pow2_pos of_int_less_iff)
  also have "\<dots> = 2 powi (k + 53)" by (simp add: power_int_add)
  also have "\<dots> \<le> 2 powi 1024" using assms(4) by (intro power_int_increasing) simp_all
  finally have "\<bar>x\<bar> < 2 ^ 1024" by simp
  then have "\<not> 2 ^ 1024 \<le> x" and "\<not> x \<le> - (2 ^ 1024)" by linarith+
  then show ?thesis using rnd_exact [OF assms(1-3)] by (simp only: round64_def Let_def if_False)
qed

lemma round64_int: "\<bar>n\<bar> < 2 ^ 53 \<Longrightarrow> round64 (of_int n) = Fin (of_int n)"
  using round64_exact [of "of_int n" n 0] by simp

lemma number_of_nat_exact: "n < 2 ^ 53 \<Longrightarrow> number_of_nat n = Fin (of_nat n)"
  using round64_int [of "int n"] by (simp add: number_of_nat_def)

lemma round64_0: "round64 0 = Fin 0"
  using round64_int [of 0] by simp

lemma rnd_abs_upper: "x \<noteq> 0 \<Longrightarrow> \<bar>rnd x\<bar> \<le> 2 powi (expo x + 1)"
proof (cases "0 < x")
  case True
  then show ?thesis using rnd_upper [of x] rnd_nonneg [of x] by simp
next
  case False
  assume "x \<noteq> 0"
  with False have n: "0 < - x" by simp
  have "\<bar>rnd x\<bar> = rnd (- x)" using rnd_nonneg [of "- x"] n by (simp add: rnd_minus)
  also have "\<dots> \<le> 2 powi (expo (- x) + 1)" using n by (rule rnd_upper)
  finally show ?thesis by (simp add: expo_minus)
qed

lemma round64_near:
  assumes "2 powi e \<le> \<bar>x\<bar>" and "\<bar>x\<bar> < 2 powi (e + 1)" and "- 1022 \<le> e" and "e \<le> 1022"
    and "rne (x / 2 powi (e - 52)) = n"
  shows "round64 x = Fin (of_int n * 2 powi (e - 52))"
proof -
  have e: "expo x = e" using assms(1-3) by (rule expo_eqI)
  have "0 < \<bar>x\<bar>" using pow2_pos [of e] assms(1) by (rule less_le_trans)
  then have x0: "x \<noteq> 0" by simp
  have r: "rnd x = of_int n * 2 powi (e - 52)" by (simp add: rnd_def ulp_def e assms(5))
  have "\<bar>rnd x\<bar> \<le> 2 powi (e + 1)" using rnd_abs_upper [OF x0] by (simp add: e)
  also have "\<dots> \<le> 2 powi 1023" using assms(4) by (intro power_int_increasing) simp_all
  also have "\<dots> < (2::rat) ^ 1024" by simp
  finally have "\<not> 2 ^ 1024 \<le> rnd x" and "\<not> rnd x \<le> - (2 ^ 1024)" by linarith+
  then have "round64 x = Fin (rnd x)" by (simp only: round64_def Let_def if_False)
  then show ?thesis by (simp only: r)
qed

lemma rnd_max_double: "rnd max_double = max_double"
  by (rule rnd_exact [of _ "2 ^ 53 - 1" 971]) (simp_all add: max_double_def)

lemma round64_finite:
  assumes "\<bar>x\<bar> \<le> max_double"
  shows "round64 x = Fin (rnd x)"
proof -
  have "rnd x \<le> rnd max_double" using assms by (intro rnd_mono) simp
  moreover have "rnd (- max_double) \<le> rnd x" using assms by (intro rnd_mono) simp
  moreover have "max_double < 2 ^ 1024" by (simp add: max_double_def)
  ultimately have "\<not> 2 ^ 1024 \<le> rnd x" and "\<not> rnd x \<le> - (2 ^ 1024)"
    by (simp_all add: rnd_max_double rnd_minus)
  then show ?thesis by (simp only: round64_def Let_def if_False)
qed

lemma round64_cases:
  "round64 x = PosInf \<or> round64 x = NegInf \<or> round64 x = Fin (rnd x)"
  by (simp add: round64_def Let_def)

lemma round64_mono: "x \<le> y \<Longrightarrow> num_le (round64 x) (round64 y)"
  using rnd_mono [of x y] by (simp add: round64_def Let_def)

lemma num_add_mono:
  assumes "num_le p q"
  shows "num_le (num_add (Fin a) p) (num_add (Fin a) q)"
proof -
  have r: "num_le NegInf (round64 z)" "num_le (round64 z) PosInf" for z
    using round64_cases [of z] by auto
  show ?thesis
    using assms by (cases p; cases q) (simp_all add: r round64_mono)
qed

lemma num_neg_antimono: "num_le p q \<Longrightarrow> num_le (num_neg q) (num_neg p)"
  by (cases p; cases q) simp_all

lemma num_sub_antimono: "num_le p q \<Longrightarrow> num_le (num_sub (Fin a) q) (num_sub (Fin a) p)"
  unfolding num_sub_def by (intro num_add_mono num_neg_antimono)

lemma rnd_1: "rnd 1 = 1"
  using rnd_exact [of 1 1 0] by simp

lemma rne_down: "of_int n \<le> x \<Longrightarrow> x < of_int n + 1 / 2 \<Longrightarrow> rne x = n"
proof -
  assume a: "of_int n \<le> x" "x < of_int n + 1 / 2"
  then have "\<lfloor>x\<rfloor> = n" by (intro floor_unique) simp_all
  then show ?thesis using a by (simp add: rne_def Let_def)
qed

lemma rne_up: "of_int n - 1 / 2 < x \<Longrightarrow> x < of_int n \<Longrightarrow> rne x = n"
proof -
  assume a: "of_int n - 1 / 2 < x" "x < of_int n"
  then have "\<lfloor>x\<rfloor> = n - 1" by (intro floor_unique) simp_all
  then show ?thesis using a by (simp add: rne_def Let_def)
qed

text \<open>The rounded value is a nearest one: it is off by at most half the spacing.\<close>

lemma rne_close: "\<bar>of_int (rne a) - a\<bar> \<le> 1 / 2"
proof -
  have "of_int \<lfloor>a\<rfloor> \<le> a" and "a < of_int \<lfloor>a\<rfloor> + 1" by linarith+
  then show ?thesis by (auto simp: rne_def Let_def abs_le_iff)
qed

lemma rnd_close: "\<bar>rnd x - x\<bar> \<le> ulp x / 2"
proof -
  let ?u = "ulp x"
  let ?n = "of_int (rne (x / ?u)) :: rat"
  have u: "0 < ?u" by (rule ulp_pos)
  then have "(?n - x / ?u) * ?u = rnd x - x" by (simp add: rnd_def left_diff_distrib)
  then have "\<bar>rnd x - x\<bar> = \<bar>(?n - x / ?u) * ?u\<bar>" by (rule arg_cong [OF sym])
  also have "\<dots> = \<bar>?n - x / ?u\<bar> * ?u" using u by (simp only: abs_mult abs_of_pos)
  also have "\<dots> \<le> 1 / 2 * ?u"
    using rne_close [of "x / ?u"] u by (simp only: mult_le_cancel_right_pos)
  finally show ?thesis by simp
qed

text \<open>
  The spacing grows with the magnitude, a rounded value is not rounded again, and two
  reals that are two spacings apart are rounded to different values.
\<close>

lemma ulp_mono: "x \<noteq> 0 \<Longrightarrow> \<bar>x\<bar> \<le> \<bar>y\<bar> \<Longrightarrow> ulp x \<le> ulp y"
  unfolding ulp_def by (intro power_int_increasing) (simp_all add: expo_mono)

lemma ulp_eqI:
  "2 powi e \<le> \<bar>x\<bar> \<Longrightarrow> \<bar>x\<bar> < 2 powi (e + 1) \<Longrightarrow> - 1022 \<le> e \<Longrightarrow> ulp x = 2 powi (e - 52)"
  by (simp add: ulp_def expo_eqI)

lemma rnd_idem: "rnd (rnd x) = rnd x"
proof (cases "x = 0")
  case True
  then show ?thesis by (simp add: rnd_0)
next
  case False
  let ?n = "rne (x / ulp x)"
  have r: "rnd x = of_int ?n * 2 powi (expo x - 52)" by (simp add: rnd_def ulp_def)
  have "\<bar>rnd x\<bar> \<le> 2 powi (expo x + 1)" using False by (rule rnd_abs_upper)
  also have "\<dots> = of_int (2 ^ 53) * 2 powi (expo x - 52)"
    by (simp add: power_int_add power_int_diff)
  finally have "\<bar>of_int ?n\<bar> * 2 powi (expo x - 52) \<le> of_int (2 ^ 53) * (2::rat) powi (expo x - 52)"
    by (simp add: r abs_mult)
  then have "\<bar>of_int ?n :: rat\<bar> \<le> of_int (2 ^ 53)"
    by (simp only: mult_le_cancel_right_pos pow2_pos)
  then have n: "\<bar>?n\<bar> \<le> 2 ^ 53" by (simp only: of_int_abs [symmetric] of_int_le_iff)
  have k: "- 1074 \<le> expo x - 52" using expo_ge [of x] by simp
  show ?thesis
  proof (cases "\<bar>?n\<bar> < 2 ^ 53")
    case True
    show ?thesis using r True k by (rule rnd_exact)
  next
    case False
    with n have "\<bar>?n\<bar> = 2 ^ 53" by simp
    then consider "?n = 2 ^ 53" | "?n = - (2 ^ 53)" by (auto simp: abs_if split: if_splits)
    then show ?thesis
    proof cases
      case 1
      have "rnd x = of_int 1 * 2 powi (expo x + 1)"
        by (simp add: r 1 power_int_add power_int_diff)
      then show ?thesis by (rule rnd_exact) (use expo_ge [of x] in simp_all)
    next
      case 2
      have "rnd x = of_int (- 1) * 2 powi (expo x + 1)"
        by (simp add: r 2 power_int_add power_int_diff)
      then show ?thesis by (rule rnd_exact) (use expo_ge [of x] in simp_all)
    qed
  qed
qed

lemma rnd_unit:
  assumes "0 \<le> y" and "y \<le> 1"
  shows "0 \<le> rnd y" and "rnd y \<le> 1" and "\<bar>rnd y - y\<bar> \<le> 1 / 2 ^ 54"
proof -
  show "0 \<le> rnd y" using assms(1) by (rule rnd_nonneg)
  have "rnd y \<le> rnd 1" using assms(2) by (rule rnd_mono)
  then show "rnd y \<le> 1" by (simp add: rnd_1)
  show "\<bar>rnd y - y\<bar> \<le> 1 / 2 ^ 54"
  proof (cases "y = 0 \<or> y = 1")
    case True
    then show ?thesis by (auto simp: rnd_0 rnd_1)
  next
    case False
    then have y: "0 < y" "y < 1" using assms by simp_all
    have "expo y < 0"
    proof (cases "- 1022 < expo y")
      case True
      have "2 powi expo y \<le> \<bar>y\<bar>" using y(1) True by (intro expo_lower) simp_all
      also have "\<bar>y\<bar> < 2 powi 0" using y by simp
      finally show ?thesis by (rule pow2_less_D)
    next
      case False
      then show ?thesis by simp
    qed
    then have "ulp y \<le> 2 powi (- 53)"
      unfolding ulp_def by (intro power_int_increasing) simp_all
    then have "ulp y / 2 \<le> 1 / 2 ^ 54" by (simp add: power_int_minus field_simps)
    with rnd_close [of y] show ?thesis by simp
  qed
qed

lemma rnd_strict:
  assumes k: "- 1022 \<le> k" and a: "\<bar>a\<bar> < 2 powi (k + 1)" and b: "\<bar>b\<bar> < 2 powi (k + 1)"
    and gap: "a + 2 * 2 powi (k - 52) \<le> b"
  shows "rnd a < rnd b"
proof -
  let ?u = "(2::rat) powi (k - 52)"
  let ?m = "\<lceil>a / ?u\<rceil>"
  have u: "0 < ?u" by simp
  have top: "(2::rat) powi (k + 1) = of_int (2 ^ 53) * ?u"
    by (simp add: power_int_add power_int_diff)
  have "a / ?u \<le> of_int ?m" by (rule le_of_int_ceiling)
  then have "a / ?u * ?u \<le> of_int ?m * ?u" using u by (simp only: mult_le_cancel_right_pos)
  then have c1: "a \<le> of_int ?m * ?u" using u by simp
  have "of_int ?m < a / ?u + 1" by linarith
  then have "of_int ?m * ?u < (a / ?u + 1) * ?u" using u by (simp only: mult_less_cancel_right_pos)
  then have c1': "of_int ?m * ?u < a + ?u" using u by (simp add: distrib_right)
  have c2: "of_int (?m + 1) * ?u \<le> b" using c1' gap by (simp add: distrib_right)
  have lo: "- (of_int (2 ^ 53) * ?u) < of_int ?m * ?u" using a c1 top by linarith
  have hi: "of_int (?m + 1) * ?u < of_int (2 ^ 53) * ?u" using b c2 top by linarith
  from lo have "(of_int (- (2 ^ 53)) :: rat) * ?u < of_int ?m * ?u" by simp
  then have "(of_int (- (2 ^ 53)) :: rat) < of_int ?m" using u by (simp only: mult_less_cancel_right_pos)
  then have m1: "- (2 ^ 53) < ?m" by (simp only: of_int_less_iff)
  from hi have "(of_int (?m + 1) :: rat) < of_int (2 ^ 53)" using u by (simp only: mult_less_cancel_right_pos)
  then have m2: "?m + 1 < 2 ^ 53" by (simp only: of_int_less_iff)
  have kk: "- 1074 \<le> k - 52" using k by simp
  have r1: "rnd (of_int ?m * ?u) = of_int ?m * ?u"
    by (rule rnd_exact [OF refl _ kk]) (use m1 m2 in linarith)
  have r2: "rnd (of_int (?m + 1) * ?u) = of_int (?m + 1) * ?u"
    by (rule rnd_exact [OF refl _ kk]) (use m1 m2 in linarith)
  have "rnd a \<le> rnd (of_int ?m * ?u)" using c1 by (rule rnd_mono)
  also have "\<dots> < of_int (?m + 1) * ?u" using u by (simp add: r1 distrib_right)
  also have "\<dots> \<le> rnd b" using rnd_mono [OF c2] by (simp only: r2)
  finally show ?thesis .
qed

text \<open>
  The scaled pixel \<open>(x / width) * extent\<close> in binary64, for \<open>x\<close> on the raster: the
  quotient and the product are each off by at most half a spacing.
\<close>

lemma number_of_nat_width:
  assumes "0 < n"
  shows "number_of_nat n = PosInf \<or> (\<exists>w. number_of_nat n = Fin w \<and> 1 \<le> w \<and> of_nat n < 2 * w)"
proof -
  let ?x = "of_nat n :: rat"
  have x: "1 \<le> ?x" using assms by simp
  then have "rnd 1 \<le> rnd ?x" by (rule rnd_mono)
  then have r1: "1 \<le> rnd ?x" by (simp add: rnd_1)
  have up: "?x < 2 powi (expo ?x + 1)" using expo_upper [of ?x] x by simp
  have "(2::rat) powi 0 < 2 powi (expo ?x + 1)" using x up by simp
  then have e: "0 < expo ?x + 1" by (rule pow2_less_D)
  then have "2 powi expo ?x \<le> rnd ?x" using x by (intro rnd_lower) simp_all
  moreover have "(2::rat) powi (expo ?x + 1) = 2 * 2 powi expo ?x" by (simp add: power_int_add)
  ultimately have "?x < 2 * rnd ?x" using up by simp
  with r1 show ?thesis by (simp add: number_of_nat_def round64_def Let_def)
qed

lemma two_le_max_double: "2 \<le> max_double"
  by (simp add: max_double_def)

lemma scale_mono_raster:
  assumes "0 < n" and "0 \<le> a1" and "a1 \<le> a2" and "a2 \<le> of_nat n" and "0 \<le> d"
  shows "num_le (num_mul (num_div (Fin a1) (number_of_nat n)) (Fin d))
                (num_mul (num_div (Fin a2) (number_of_nat n)) (Fin d))"
proof -
  consider "number_of_nat n = PosInf"
    | w where "number_of_nat n = Fin w" "1 \<le> w" "of_nat n < 2 * w"
    using number_of_nat_width [OF assms(1)] by blast
  then show ?thesis
  proof cases
    case 1
    then show ?thesis by (simp add: round64_0)
  next
    case 2
    have q: "num_div (Fin a) (Fin w) = Fin (rnd (a / w))" if "0 \<le> a" "a \<le> of_nat n" for a
    proof -
      have "a / w \<le> of_nat n / w" using that(2) 2(2) by (simp add: divide_right_mono)
      also have "\<dots> \<le> 2" using 2(2,3) by (simp add: divide_le_eq)
      finally have "a / w \<le> max_double" using two_le_max_double by simp
      moreover have "0 \<le> a / w" using that(1) 2(2) by simp
      ultimately have "\<bar>a / w\<bar> \<le> max_double" by simp
      then show ?thesis using 2(2) by (simp add: round64_finite)
    qed
    have a1: "0 \<le> a1" "a1 \<le> of_nat n" and a2: "0 \<le> a2" "a2 \<le> of_nat n"
      using assms by simp_all
    have "a1 / w \<le> a2 / w" using assms(3) 2(2) by (simp add: divide_right_mono)
    then have "rnd (a1 / w) \<le> rnd (a2 / w)" by (rule rnd_mono)
    then have "rnd (a1 / w) * d \<le> rnd (a2 / w) * d" using assms(5) by (rule mult_right_mono)
    then have "num_le (round64 (rnd (a1 / w) * d)) (round64 (rnd (a2 / w) * d))"
      by (rule round64_mono)
    then show ?thesis by (simp only: 2(1) q [OF a1] q [OF a2] num_mul.simps)
  qed
qed

lemma step_bounds:
  assumes "0 < n" and "0 \<le> x" and "x \<le> of_nat n" and "0 \<le> d" and "rnd d = d"
  shows "0 \<le> rnd (rnd (x / of_nat n) * d)" and "rnd (rnd (x / of_nat n) * d) \<le> d"
proof -
  have y: "0 \<le> x / of_nat n" "x / of_nat n \<le> 1" using assms(1-3) by (simp_all add: divide_le_eq)
  have q: "0 \<le> rnd (x / of_nat n)" "rnd (x / of_nat n) \<le> 1" using rnd_unit [OF y] by simp_all
  show "0 \<le> rnd (rnd (x / of_nat n) * d)" using q(1) assms(4) by (intro rnd_nonneg) simp
  have "rnd (x / of_nat n) * d \<le> 1 * d" using q(2) assms(4) by (rule mult_right_mono)
  then have "rnd (rnd (x / of_nat n) * d) \<le> rnd d" using rnd_mono [of "rnd (x / of_nat n) * d" d] by simp
  then show "rnd (rnd (x / of_nat n) * d) \<le> d" by (simp only: assms(5))
qed

lemma product_error:
  assumes "0 \<le> q" and "q \<le> 1" and "0 \<le> d"
  shows "\<bar>rnd (q * d) - q * d\<bar> \<le> ulp d / 2"
proof (cases "q * d = 0")
  case True
  show ?thesis unfolding True using ulp_pos [of d] by (simp add: rnd_0)
next
  case False
  have "q * d \<le> 1 * d" using assms(2,3) by (rule mult_right_mono)
  then have "\<bar>q * d\<bar> \<le> \<bar>d\<bar>" using assms by simp
  then have "ulp (q * d) \<le> ulp d" using False by (intro ulp_mono)
  with rnd_close [of "q * d"] show ?thesis by simp
qed

lemma step_gap:
  assumes "0 < n" and "0 \<le> x1" and "x1 \<le> x2" and "x2 \<le> of_nat n" and "0 \<le> d"
  shows "(x2 - x1) / of_nat n * d - d / 2 ^ 53 - ulp d
           \<le> rnd (rnd (x2 / of_nat n) * d) - rnd (rnd (x1 / of_nat n) * d)"
proof -
  let ?y1 = "x1 / of_nat n" and ?y2 = "x2 / of_nat n"
  let ?q1 = "rnd ?y1" and ?q2 = "rnd ?y2"
  have y1: "0 \<le> ?y1" "?y1 \<le> 1" and y2: "0 \<le> ?y2" "?y2 \<le> 1"
    using assms(1-4) by (simp_all add: divide_le_eq)
  have e1: "\<bar>?q1 - ?y1\<bar> \<le> 1 / 2 ^ 54" and e2: "\<bar>?q2 - ?y2\<bar> \<le> 1 / 2 ^ 54"
    using rnd_unit(3) [OF y1] rnd_unit(3) [OF y2] by simp_all
  have h: "(1::rat) / 2 ^ 53 = 1 / 2 ^ 54 + 1 / 2 ^ 54" by simp
  have "?q1 - ?y1 \<le> 1 / 2 ^ 54" "?y2 - ?q2 \<le> 1 / 2 ^ 54" using e1 e2 by linarith+
  then have "?y2 - ?y1 - 1 / 2 ^ 53 \<le> ?q2 - ?q1" unfolding h by linarith
  then have "(?y2 - ?y1 - 1 / 2 ^ 53) * d \<le> (?q2 - ?q1) * d" using assms(5) by (rule mult_right_mono)
  moreover have "(?y2 - ?y1 - 1 / 2 ^ 53) * d = (x2 - x1) / of_nat n * d - d / 2 ^ 53"
    by (simp add: algebra_simps diff_divide_distrib)
  ultimately have g: "(x2 - x1) / of_nat n * d - d / 2 ^ 53 \<le> ?q2 * d - ?q1 * d"
    by (simp add: algebra_simps)
  have p1: "\<bar>rnd (?q1 * d) - ?q1 * d\<bar> \<le> ulp d / 2"
    using rnd_unit(1,2) [OF y1] assms(5) by (intro product_error)
  have p2: "\<bar>rnd (?q2 * d) - ?q2 * d\<bar> \<le> ulp d / 2"
    using rnd_unit(1,2) [OF y2] assms(5) by (intro product_error)
  from p1 p2 have "?q1 * d - rnd (?q1 * d) \<ge> - (ulp d / 2)" "rnd (?q2 * d) - ?q2 * d \<ge> - (ulp d / 2)"
    by linarith+
  with g show ?thesis by linarith
qed

lemma step_strict:
  assumes "0 < n" and "0 \<le> x1" and "x1 \<le> x2" and "x2 \<le> of_nat n" and "0 \<le> d" and "rnd d = d"
    and gap: "2 * ulp (\<bar>c\<bar> + d) + ulp d + d / 2 ^ 53 \<le> (x2 - x1) / of_nat n * d"
  shows "rnd (c + rnd (rnd (x1 / of_nat n) * d)) < rnd (c + rnd (rnd (x2 / of_nat n) * d))"
    and "rnd (c - rnd (rnd (x2 / of_nat n) * d)) < rnd (c - rnd (rnd (x1 / of_nat n) * d))"
proof -
  let ?p1 = "rnd (rnd (x1 / of_nat n) * d)" and ?p2 = "rnd (rnd (x2 / of_nat n) * d)"
  let ?B = "\<bar>c\<bar> + d"
  let ?k = "expo ?B"
  have x1: "x1 \<le> of_nat n" and x2: "0 \<le> x2" using assms(2-4) by simp_all
  have b1: "0 \<le> ?p1" "?p1 \<le> d" using step_bounds [OF assms(1,2) x1 assms(5,6)] by simp_all
  have b2: "0 \<le> ?p2" "?p2 \<le> d" using step_bounds [OF assms(1) x2 assms(4,5,6)] by simp_all
  have "0 < ulp ?B" "0 < ulp d" by (rule ulp_pos)+
  moreover have "0 \<le> d / 2 ^ 53" using assms(5) by simp
  ultimately have "0 < (x2 - x1) / of_nat n * d" using gap by linarith
  then have "d \<noteq> 0" by auto
  then have B: "?B \<noteq> 0" using assms(5) by simp
  have up: "?B < 2 powi (?k + 1)" using expo_upper [OF B] assms(5) by simp
  have g: "2 * 2 powi (?k - 52) \<le> ?p2 - ?p1"
    using step_gap [OF assms(1-5)] gap by (simp add: ulp_def)
  show "rnd (c + ?p1) < rnd (c + ?p2)"
    by (rule rnd_strict [of ?k]) (use expo_ge [of ?B] b1 b2 up g in \<open>simp_all add: abs_le_iff abs_less_iff\<close>, linarith+)
  show "rnd (c - ?p2) < rnd (c - ?p1)"
    by (rule rnd_strict [of ?k]) (use expo_ge [of ?B] b1 b2 up g in \<open>simp_all add: abs_le_iff abs_less_iff\<close>, linarith+)
qed

lemma extent_cases:
  assumes "num_sub hi lo = Fin d" and "num_less lo hi"
  obtains h l where "hi = Fin h" and "lo = Fin l" and "l < h" and "d = rnd (h - l)"
proof (cases hi; cases lo)
  fix h l assume *: "hi = Fin h" "lo = Fin l"
  with assms(1) have "round64 (h - l) = Fin d" by (simp add: num_sub_def)
  then have "d = rnd (h - l)" using round64_cases [of "h - l"] by auto
  moreover have "l < h" using assms(2) * by simp
  ultimately show thesis using * that by blast
qed (use assms in \<open>simp_all add: num_sub_def\<close>)

lemma extent_rounded:
  assumes "num_sub hi lo = Fin d" and "num_less lo hi"
  shows "0 \<le> d" and "rnd d = d"
proof -
  from assms obtain h l where *: "l < h" "d = rnd (h - l)" by (rule extent_cases)
  show "0 \<le> d" unfolding *(2) using *(1) by (intro rnd_nonneg) simp
  show "rnd d = d" unfolding *(2) by (rule rnd_idem)
qed

lemma scaled_value:
  assumes "0 < n" and "n < 2 ^ 53" and "0 \<le> x" and "x \<le> of_nat n" and "0 \<le> d" and "rnd d = d"
    and "\<bar>c\<bar> + d \<le> max_double"
  shows "num_add (Fin c) (num_mul (num_div (Fin x) (number_of_nat n)) (Fin d))
           = Fin (rnd (c + rnd (rnd (x / of_nat n) * d)))"
    and "num_sub (Fin c) (num_mul (num_div (Fin x) (number_of_nat n)) (Fin d))
           = Fin (rnd (c - rnd (rnd (x / of_nat n) * d)))"
proof -
  let ?q = "rnd (x / of_nat n)"
  let ?p = "rnd (?q * d)"
  have y: "0 \<le> x / of_nat n" "x / of_nat n \<le> 1" using assms(1,3,4) by (simp_all add: divide_le_eq)
  have "1 \<le> max_double" by (simp add: max_double_def)
  with y have "\<bar>x / of_nat n\<bar> \<le> max_double" by simp
  then have 1: "num_div (Fin x) (number_of_nat n) = Fin ?q"
    using assms(1) by (simp add: number_of_nat_exact [OF assms(2)] round64_finite)
  have q: "0 \<le> ?q" "?q \<le> 1" using rnd_unit [OF y] by simp_all
  have "?q * d \<le> 1 * d" using q(2) assms(5) by (rule mult_right_mono)
  moreover have "0 \<le> ?q * d" using q(1) assms(5) by simp
  ultimately have "\<bar>?q * d\<bar> \<le> max_double" using assms(7) by simp
  then have 2: "num_mul (Fin ?q) (Fin d) = Fin ?p" by (simp add: round64_finite)
  have p: "0 \<le> ?p" "?p \<le> d" using step_bounds [OF assms(1,3,4,5,6)] by simp_all
  have "\<bar>c + ?p\<bar> \<le> max_double" "\<bar>c - ?p\<bar> \<le> max_double" using p assms(7) by simp_all
  then have 3: "num_add (Fin c) (Fin ?p) = Fin (rnd (c + ?p))"
    "num_sub (Fin c) (Fin ?p) = Fin (rnd (c - ?p))"
    by (simp_all add: num_sub_def round64_finite)
  show "num_add (Fin c) (num_mul (num_div (Fin x) (number_of_nat n)) (Fin d)) = Fin (rnd (c + ?p))"
    by (simp only: 1 2 3)
  show "num_sub (Fin c) (num_mul (num_div (Fin x) (number_of_nat n)) (Fin d)) = Fin (rnd (c - ?p))"
    by (simp only: 1 2 3)
qed

lemma round64_overflow: "2 ^ 1024 \<le> x \<Longrightarrow> round64 x = PosInf"
proof -
  assume "2 ^ 1024 \<le> x"
  then have "rnd (2 ^ 1024) \<le> rnd x" by (rule rnd_mono)
  moreover have "rnd (2 ^ 1024) = 2 ^ 1024" by (rule rnd_exact [of _ 1 1024]) simp_all
  ultimately show ?thesis by (simp add: round64_def Let_def)
qed

lemma scaled_strict:
  assumes "n < 2 ^ 53" and "0 \<le> x1" and "x1 < x2" and "x2 \<le> of_nat n" and "0 \<le> d" and "rnd d = d"
    and "\<bar>c\<bar> + d \<le> max_double"
    and "2 * ulp (\<bar>c\<bar> + d) + ulp d + d / 2 ^ 53 \<le> (x2 - x1) / of_nat n * d"
  shows "num_less (num_add (Fin c) (num_mul (num_div (Fin x1) (number_of_nat n)) (Fin d)))
                  (num_add (Fin c) (num_mul (num_div (Fin x2) (number_of_nat n)) (Fin d)))"
    and "num_less (num_sub (Fin c) (num_mul (num_div (Fin x2) (number_of_nat n)) (Fin d)))
                  (num_sub (Fin c) (num_mul (num_div (Fin x1) (number_of_nat n)) (Fin d)))"
proof -
  have n: "0 < n" using assms(2-4) by (cases "n = 0") simp_all
  have le: "x1 \<le> x2" "x1 \<le> of_nat n" "0 \<le> x2" using assms(2-4) by simp_all
  note v1 = scaled_value [OF n assms(1,2) le(2) assms(5-7)]
  note v2 = scaled_value [OF n assms(1) le(3) assms(4-7)]
  note s = step_strict [OF n assms(2) le(1) assms(4,5,6,8)]
  show "num_less (num_add (Fin c) (num_mul (num_div (Fin x1) (number_of_nat n)) (Fin d)))
                 (num_add (Fin c) (num_mul (num_div (Fin x2) (number_of_nat n)) (Fin d)))"
    using s(1) by (simp only: v1 v2 num_less.simps)
  show "num_less (num_sub (Fin c) (num_mul (num_div (Fin x2) (number_of_nat n)) (Fin d)))
                 (num_sub (Fin c) (num_mul (num_div (Fin x1) (number_of_nat n)) (Fin d)))"
    using s(2) by (simp only: v1 v2 num_less.simps)
qed

lemma scaled_weak:
  assumes "0 \<le> x1" and "x1 < x2" and "x2 \<le> of_nat n" and "0 \<le> d"
  shows "num_le (num_add (Fin c) (num_mul (num_div (Fin x1) (number_of_nat n)) (Fin d)))
                (num_add (Fin c) (num_mul (num_div (Fin x2) (number_of_nat n)) (Fin d)))"
    and "num_le (num_sub (Fin c) (num_mul (num_div (Fin x2) (number_of_nat n)) (Fin d)))
                (num_sub (Fin c) (num_mul (num_div (Fin x1) (number_of_nat n)) (Fin d)))"
proof -
  have n: "0 < n" using assms(1-3) by (cases "n = 0") simp_all
  have le: "x1 \<le> x2" using assms(2) by simp
  show "num_le (num_add (Fin c) (num_mul (num_div (Fin x1) (number_of_nat n)) (Fin d)))
               (num_add (Fin c) (num_mul (num_div (Fin x2) (number_of_nat n)) (Fin d)))"
    by (intro num_add_mono scale_mono_raster n le assms)
  show "num_le (num_sub (Fin c) (num_mul (num_div (Fin x2) (number_of_nat n)) (Fin d)))
               (num_sub (Fin c) (num_mul (num_div (Fin x1) (number_of_nat n)) (Fin d)))"
    by (intro num_sub_antimono scale_mono_raster n le assms)
qed

section \<open>The pixel transform\<close>

lemma start_simps:
  "canvas_width (start w h d) = w"
  "canvas_height (start w h d) = h"
  "canvas_data (start w h d) = d"
  "image_loaded (start w h d) = False"
  "geoBounds (start w h d) = None"
  "picked (start w h d) = []"
  "downloads (start w h d) = []"
  by (simp_all add: start_def)

lemma geo_simps:
  "geoBounds (st\<lparr>geoBounds := g\<rparr>) = g"
  "canvas_width (st\<lparr>geoBounds := g\<rparr>) = canvas_width st"
  "canvas_height (st\<lparr>geoBounds := g\<rparr>) = canvas_height st"
  by simp_all

text \<open>
  Claim C1. Once the bounds are set, \<open>pixelToLatLon\<close> returns for every pair of
  Numbers \<open>x\<close>, \<open>y\<close> (none is rejected or clamped, whatever its range) exactly
  \<open>west + (x / width) * (east - west)\<close> and \<open>north - (y / height) * (north - south)\<close>,
  in the arithmetic of Numbers.
\<close>

theorem pixel_formula:
  assumes "geoBounds st = Some b"
  shows "pixelToLatLon st x y =
     Inr (num_add (west b)
            (num_mul (num_div x (number_of_nat (canvas_width st))) (num_sub (east b) (west b))),
          num_sub (north b)
            (num_mul (num_div y (number_of_nat (canvas_height st))) (num_sub (north b) (south b))))"
  using assms by (simp add: pixelToLatLon_def Let_def)

text \<open>
  On a raster of 600 by 400 with bounds from 0 to 1 (west to east) and 0 to 2 (south to
  north), the pixel \<open>(1200, -400)\<close> outside the raster is extrapolated to \<open>(2, 4)\<close>.
\<close>

theorem pixel_formula_witness:
  "pixelToLatLon
     ((start 600 400 [])\<lparr>geoBounds := Some \<lparr>north = Fin 2, south = Fin 0, east = Fin 1, west = Fin 0\<rparr>\<rparr>)
     (Fin 1200) (Fin (- 400)) = Inr (Fin 2, Fin 4)"
proof -
  let ?b = "\<lparr>north = Fin 2, south = Fin 0, east = Fin 1, west = Fin 0\<rparr>"
  let ?st = "(start 600 400 [])\<lparr>geoBounds := Some ?b\<rparr>"
  have g: "geoBounds ?st = Some ?b" by simp
  have w: "number_of_nat (canvas_width ?st) = Fin 600" "number_of_nat (canvas_height ?st) = Fin 400"
    using number_of_nat_exact [of 600] number_of_nat_exact [of 400] by (simp_all add: start_simps)
  have 1: "num_div (Fin 1200) (Fin 600) = Fin 2" using round64_int [of 2] by simp
  have 2: "num_sub (Fin 1) (Fin 0) = Fin 1" using round64_int [of 1] by (simp add: num_sub_def)
  have 3: "num_mul (Fin 2) (Fin 1) = Fin 2" using round64_int [of 2] by simp
  have 4: "num_add (Fin 0) (Fin 2) = Fin 2" using round64_int [of 2] by simp
  have 5: "num_div (Fin (- 400)) (Fin 400) = Fin (- 1)" using round64_int [of "- 1"] by simp
  have 6: "num_sub (Fin 2) (Fin 0) = Fin 2" using round64_int [of 2] by (simp add: num_sub_def)
  have 7: "num_mul (Fin (- 1)) (Fin 2) = Fin (- 2)" using round64_int [of "- 2"] by simp
  have 8: "num_sub (Fin 2) (Fin (- 2)) = Fin 4" using round64_int [of 4] by (simp add: num_sub_def)
  show ?thesis
    using pixel_formula [OF g, of "Fin 1200" "Fin (- 400)"]
    by (simp only: w GeoBounds.select_convs 1 2 3 4 5 6 7 8)
qed

text \<open>
  Claim C5. With the bounds \<open>west = 88.3\<close>, \<open>east = 88.6\<close>, \<open>north = 22.7\<close>,
  \<open>south = 22.5\<close> on a raster of 600 by 400, the pixel \<open>(0, 0)\<close> is mapped to exactly
  \<open>(88.3, 22.7)\<close> and the pixel \<open>(600, 400)\<close> to exactly \<open>(88.6, 22.5)\<close>: the
  differences \<open>east - west\<close> and \<open>north - south\<close> are computed without rounding error.
\<close>

theorem spec_bounds_corners:
  assumes "canvas_width st = 600" and "canvas_height st = 400"
    and "geoBounds st = Some \<lparr>north = num_lit (227 / 10), south = num_lit (225 / 10),
                               east = num_lit (886 / 10), west = num_lit (883 / 10)\<rparr>"
  shows "pixelToLatLon st (num_lit 0) (num_lit 0) = Inr (num_lit (883 / 10), num_lit (227 / 10))
       \<and> pixelToLatLon st (num_lit 600) (num_lit 400) = Inr (num_lit (886 / 10), num_lit (225 / 10))"
proof -
  let ?W = "6213560110887731 / 2 ^ 46 :: rat"
  let ?E = "3117335367070515 / 2 ^ 45 :: rat"
  let ?N = "6389481971331891 / 2 ^ 48 :: rat"
  let ?S = "45 / 2 :: rat"
  let ?DX = "21110623253299 / 2 ^ 46 :: rat"
  let ?DY = "56294995342131 / 2 ^ 48 :: rat"
  have "rne (883 / 10 / 2 powi (6 - 52)) = 6213560110887731"
    by (rule rne_down) (simp_all add: power_int_minus)
  then have W: "num_lit (883 / 10) = Fin ?W"
    using round64_near [of 6 "883 / 10" 6213560110887731]
    by (simp add: num_lit_def power_int_minus)
  have "rne (886 / 10 / 2 powi (6 - 52)) = 6234670734141030"
    by (rule rne_down) (simp_all add: power_int_minus)
  then have E: "num_lit (886 / 10) = Fin ?E"
    using round64_near [of 6 "886 / 10" 6234670734141030]
    by (simp add: num_lit_def power_int_minus)
  have "rne (227 / 10 / 2 powi (4 - 52)) = 6389481971331891"
    by (rule rne_down) (simp_all add: power_int_minus)
  then have N: "num_lit (227 / 10) = Fin ?N"
    using round64_near [of 4 "227 / 10" 6389481971331891]
    by (simp add: num_lit_def power_int_minus)
  have S: "num_lit (225 / 10) = Fin ?S"
    using round64_exact [of "45 / 2" 45 "- 1"]
    by (simp add: num_lit_def power_int_minus)
  have l: "num_lit 0 = Fin 0" "num_lit 600 = Fin 600" "num_lit 400 = Fin 400"
    using round64_int [of 0] round64_int [of 600] round64_int [of 400]
    by (simp_all add: num_lit_def)
  have w: "number_of_nat (canvas_width st) = Fin 600" "number_of_nat (canvas_height st) = Fin 400"
    using number_of_nat_exact [of 600] number_of_nat_exact [of 400] by (simp_all add: assms(1,2))
  have q: "num_div (Fin 0) (Fin 600) = Fin 0" "num_div (Fin 0) (Fin 400) = Fin 0"
    "num_div (Fin 600) (Fin 600) = Fin 1" "num_div (Fin 400) (Fin 400) = Fin 1"
    using round64_int [of 0] round64_int [of 1] by simp_all
  have dx: "num_sub (Fin ?E) (Fin ?W) = Fin ?DX"
    using round64_exact [of ?DX 21110623253299 "- 46"]
    by (simp add: num_sub_def power_int_minus)
  have dy: "num_sub (Fin ?N) (Fin ?S) = Fin ?DY"
    using round64_exact [of ?DY 56294995342131 "- 48"]
    by (simp add: num_sub_def power_int_minus)
  have p: "num_mul (Fin 0) (Fin ?DX) = Fin 0" "num_mul (Fin 0) (Fin ?DY) = Fin 0"
    using round64_int [of 0] by simp_all
  have p1: "num_mul (Fin 1) (Fin ?DX) = Fin ?DX"
    using round64_exact [of ?DX 21110623253299 "- 46"] by (simp add: power_int_minus)
  have p2: "num_mul (Fin 1) (Fin ?DY) = Fin ?DY"
    using round64_exact [of ?DY 56294995342131 "- 48"] by (simp add: power_int_minus)
  have a0: "num_add (Fin ?W) (Fin 0) = Fin ?W"
    using round64_exact [of ?W 6213560110887731 "- 46"] by (simp add: power_int_minus)
  have s0: "num_sub (Fin ?N) (Fin 0) = Fin ?N"
    using round64_exact [of ?N 6389481971331891 "- 48"] by (simp add: num_sub_def power_int_minus)
  have a1: "num_add (Fin ?W) (Fin ?DX) = Fin ?E"
    using round64_exact [of ?E 3117335367070515 "- 45"] by (simp add: power_int_minus)
  have s1: "num_sub (Fin ?N) (Fin ?DY) = Fin ?S"
    using round64_exact [of ?S 45 "- 1"] by (simp add: num_sub_def power_int_minus)
  show ?thesis
    by (simp only: pixelToLatLon_def assms(3) option.case Let_def GeoBounds.select_convs
        W E N S l w q dx dy p p1 p2 a0 s0 a1 s1 simp_thms)
qed

theorem spec_bounds_corners_witness:
  "pixelToLatLon
     ((start 600 400 [])\<lparr>geoBounds := Some \<lparr>north = num_lit (227 / 10), south = num_lit (225 / 10),
                               east = num_lit (886 / 10), west = num_lit (883 / 10)\<rparr>\<rparr>)
     (num_lit 600) (num_lit 400) = Inr (num_lit (886 / 10), num_lit (225 / 10))"
  using spec_bounds_corners [of "(start 600 400 [])\<lparr>geoBounds := Some \<lparr>north = num_lit (227 / 10), south = num_lit (225 / 10),
                               east = num_lit (886 / 10), west = num_lit (883 / 10)\<rparr>\<rparr>"]
  by (simp add: start_simps)

text \<open>
  The configuration of the specification: the four literals as Numbers, the two extents
  (both exact), and the spacing of the Numbers at the far bounds against one pixel step.
\<close>

lemma spec_literals:
  "num_lit (883 / 10) = Fin (6213560110887731 / 2 ^ 46)"
  "num_lit (886 / 10) = Fin (3117335367070515 / 2 ^ 45)"
  "num_lit (227 / 10) = Fin (6389481971331891 / 2 ^ 48)"
  "num_lit (225 / 10) = Fin (45 / 2)"
proof -
  have "rne (883 / 10 / 2 powi (6 - 52)) = 6213560110887731"
    by (rule rne_down) (simp_all add: power_int_minus)
  then show "num_lit (883 / 10) = Fin (6213560110887731 / 2 ^ 46)"
    using round64_near [of 6 "883 / 10" 6213560110887731]
    by (simp add: num_lit_def power_int_minus)
  have "rne (886 / 10 / 2 powi (6 - 52)) = 6234670734141030"
    by (rule rne_down) (simp_all add: power_int_minus)
  then show "num_lit (886 / 10) = Fin (3117335367070515 / 2 ^ 45)"
    using round64_near [of 6 "886 / 10" 6234670734141030]
    by (simp add: num_lit_def power_int_minus)
  have "rne (227 / 10 / 2 powi (4 - 52)) = 6389481971331891"
    by (rule rne_down) (simp_all add: power_int_minus)
  then show "num_lit (227 / 10) = Fin (6389481971331891 / 2 ^ 48)"
    using round64_near [of 4 "227 / 10" 6389481971331891]
    by (simp add: num_lit_def power_int_minus)
  show "num_lit (225 / 10) = Fin (45 / 2)"
    using round64_exact [of "45 / 2" 45 "- 1"]
    by (simp add: num_lit_def power_int_minus)
qed

lemma spec_extents:
  "num_sub (Fin (3117335367070515 / 2 ^ 45)) (Fin (6213560110887731 / 2 ^ 46))
     = Fin (21110623253299 / 2 ^ 46)"
  "num_sub (Fin (6389481971331891 / 2 ^ 48)) (Fin (45 / 2)) = Fin (56294995342131 / 2 ^ 48)"
  using round64_exact [of "21110623253299 / 2 ^ 46" 21110623253299 "- 46"]
    round64_exact [of "56294995342131 / 2 ^ 48" 56294995342131 "- 48"]
  by (simp_all add: num_sub_def power_int_minus)

lemma spec_gap:
  assumes "1 \<le> t"
  shows "2 * ulp (\<bar>6213560110887731 / 2 ^ 46\<bar> + 21110623253299 / 2 ^ 46)
           + ulp (21110623253299 / 2 ^ 46) + 21110623253299 / 2 ^ 46 / 2 ^ 53
         \<le> t / of_nat 600 * (21110623253299 / 2 ^ 46)"
    and "2 * ulp (\<bar>6389481971331891 / 2 ^ 48\<bar> + 56294995342131 / 2 ^ 48)
           + ulp (56294995342131 / 2 ^ 48) + 56294995342131 / 2 ^ 48 / 2 ^ 53
         \<le> t / of_nat 400 * (56294995342131 / 2 ^ 48)"
proof -
  let ?W = "6213560110887731 / 2 ^ 46 :: rat" and ?DX = "21110623253299 / 2 ^ 46 :: rat"
  let ?N = "6389481971331891 / 2 ^ 48 :: rat" and ?DY = "56294995342131 / 2 ^ 48 :: rat"
  have u: "ulp (\<bar>?W\<bar> + ?DX) = 2 powi (6 - 52)" "ulp ?DX = 2 powi (- 2 - 52)"
    "ulp (\<bar>?N\<bar> + ?DY) = 2 powi (4 - 52)" "ulp ?DY = 2 powi (- 3 - 52)"
    by (rule ulp_eqI; simp add: power_int_minus)+
  have "2 * 2 powi (6 - 52) + 2 powi (- 2 - 52) + ?DX / 2 ^ 53 \<le> 1 / 600 * ?DX"
    by (simp add: power_int_minus)
  also have "\<dots> \<le> t / 600 * ?DX" using assms by (intro mult_right_mono divide_right_mono) simp_all
  finally show "2 * ulp (\<bar>?W\<bar> + ?DX) + ulp ?DX + ?DX / 2 ^ 53 \<le> t / of_nat 600 * ?DX"
    by (simp only: u of_nat_numeral)
  have "2 * 2 powi (4 - 52) + 2 powi (- 3 - 52) + ?DY / 2 ^ 53 \<le> 1 / 400 * ?DY"
    by (simp add: power_int_minus)
  also have "\<dots> \<le> t / 400 * ?DY" using assms by (intro mult_right_mono divide_right_mono) simp_all
  finally show "2 * ulp (\<bar>?N\<bar> + ?DY) + ulp ?DY + ?DY / 2 ^ 53 \<le> t / of_nat 400 * ?DY"
    by (simp only: u of_nat_numeral)
qed

lemma spec_finite:
  "\<bar>6213560110887731 / 2 ^ 46\<bar> + 21110623253299 / 2 ^ 46 \<le> max_double"
  "\<bar>6389481971331891 / 2 ^ 48\<bar> + 56294995342131 / 2 ^ 48 \<le> max_double"
  by (simp_all add: max_double_def)

lemma spec_extents_rounded:
  "rnd (21110623253299 / 2 ^ 46) = 21110623253299 / 2 ^ 46"
  "rnd (56294995342131 / 2 ^ 48) = 56294995342131 / 2 ^ 48"
  using rnd_exact [of "21110623253299 / 2 ^ 46" 21110623253299 "- 46"]
    rnd_exact [of "56294995342131 / 2 ^ 48" 56294995342131 "- 48"]
  by (simp_all add: power_int_minus)


text \<open>
  Claim C6, as the code has it. Let the bounds have \<open>west < east\<close> and
  \<open>south < north\<close> and let the extents \<open>east - west\<close> and \<open>north - south\<close> be the
  finite Numbers \<open>dx\<close> and \<open>dy\<close> (the bounds are then finite: \<open>w0\<close> and \<open>n0\<close> name
  \<open>west\<close> and \<open>north\<close>). For \<open>0 \<le> x1 < x2 \<le> width\<close> the longitude of \<open>x1\<close> is less
  than or equal to the longitude of \<open>x2\<close>, whatever \<open>y\<close> is, and it is strictly less
  as soon as the exact step \<open>(x2 - x1) / width * dx\<close> is at least two spacings of the
  Numbers at \<open>\<bar>w0\<bar> + dx\<close>, plus the rounding errors of the quotient and of the
  product (\<open>dx / 2 ^ 53\<close> and the spacing at \<open>dx\<close>), the width being below \<open>2 ^ 53\<close>
  (that of a canvas is below \<open>2 ^ 32\<close>) and \<open>\<bar>w0\<bar> + dx\<close> finite. For
  \<open>0 \<le> y1 < y2 \<le> height\<close> the latitude of \<open>y2\<close> is less than or equal to the
  latitude of \<open>y1\<close>, and strictly less under the same condition on \<open>n0\<close>, \<open>dy\<close>
  and the height.
\<close>

theorem pixel_monotone:
  assumes "geoBounds st = Some b" and "valid_bounds b"
    and "num_sub (east b) (west b) = Fin dx" and "num_sub (north b) (south b) = Fin dy"
    and "west b = Fin w0" and "north b = Fin n0"
  shows "(0 \<le> x1 \<and> x1 < x2 \<and> x2 \<le> of_nat (canvas_width st) \<longrightarrow>
           (\<exists>lon1 lon2.
               (\<forall>y. \<exists>lat. pixelToLatLon st (Fin x1) y = Inr (lon1, lat))
             \<and> (\<forall>y. \<exists>lat. pixelToLatLon st (Fin x2) y = Inr (lon2, lat))
             \<and> num_le lon1 lon2
             \<and> (canvas_width st < 2 ^ 53 \<and> \<bar>w0\<bar> + dx \<le> max_double
                  \<and> 2 * ulp (\<bar>w0\<bar> + dx) + ulp dx + dx / 2 ^ 53
                      \<le> (x2 - x1) / of_nat (canvas_width st) * dx
                \<longrightarrow> num_less lon1 lon2)))
       \<and> (0 \<le> y1 \<and> y1 < y2 \<and> y2 \<le> of_nat (canvas_height st) \<longrightarrow>
           (\<exists>lat1 lat2.
               (\<forall>x. \<exists>lon. pixelToLatLon st x (Fin y1) = Inr (lon, lat1))
             \<and> (\<forall>x. \<exists>lon. pixelToLatLon st x (Fin y2) = Inr (lon, lat2))
             \<and> num_le lat2 lat1
             \<and> (canvas_height st < 2 ^ 53 \<and> \<bar>n0\<bar> + dy \<le> max_double
                  \<and> 2 * ulp (\<bar>n0\<bar> + dy) + ulp dy + dy / 2 ^ 53
                      \<le> (y2 - y1) / of_nat (canvas_height st) * dy
                \<longrightarrow> num_less lat2 lat1)))"
proof -
  have v: "num_less (west b) (east b)" "num_less (south b) (north b)"
    using assms(2) by (simp_all add: valid_bounds_def)
  have dx: "0 \<le> dx" "rnd dx = dx" using extent_rounded [OF assms(3) v(1)] by simp_all
  have dy: "0 \<le> dy" "rnd dy = dy" using extent_rounded [OF assms(4) v(2)] by simp_all
  let ?lon = "\<lambda>x. num_add (Fin w0) (num_mul (num_div (Fin x) (number_of_nat (canvas_width st))) (Fin dx))"
  let ?lat = "\<lambda>y. num_sub (Fin n0) (num_mul (num_div (Fin y) (number_of_nat (canvas_height st))) (Fin dy))"
  have ex: "num_sub (east b) (Fin w0) = Fin dx" using assms(3) by (simp only: assms(5))
  have ey: "num_sub (Fin n0) (south b) = Fin dy" using assms(4) by (simp only: assms(6))
  have lon: "\<forall>y. \<exists>lat. pixelToLatLon st (Fin x) y = Inr (?lon x, lat)" for x
    by (simp add: pixelToLatLon_def assms(1,5) ex Let_def)
  have lat: "\<forall>x. \<exists>lon. pixelToLatLon st x (Fin y) = Inr (lon, ?lat y)" for y
    by (simp add: pixelToLatLon_def assms(1,6) ey Let_def)
  have A: "num_le (?lon x1) (?lon x2)
        \<and> (canvas_width st < 2 ^ 53 \<and> \<bar>w0\<bar> + dx \<le> max_double
              \<and> 2 * ulp (\<bar>w0\<bar> + dx) + ulp dx + dx / 2 ^ 53
                  \<le> (x2 - x1) / of_nat (canvas_width st) * dx
            \<longrightarrow> num_less (?lon x1) (?lon x2))"
    if x: "0 \<le> x1" "x1 < x2" "x2 \<le> of_nat (canvas_width st)"
    using scaled_weak(1) [OF x dx(1)] scaled_strict(1) [OF _ x dx] by blast
  have B: "num_le (?lat y2) (?lat y1)
        \<and> (canvas_height st < 2 ^ 53 \<and> \<bar>n0\<bar> + dy \<le> max_double
              \<and> 2 * ulp (\<bar>n0\<bar> + dy) + ulp dy + dy / 2 ^ 53
                  \<le> (y2 - y1) / of_nat (canvas_height st) * dy
            \<longrightarrow> num_less (?lat y2) (?lat y1))"
    if y: "0 \<le> y1" "y1 < y2" "y2 \<le> of_nat (canvas_height st)"
    using scaled_weak(2) [OF y dy(1)] scaled_strict(2) [OF _ y dy] by blast
  show ?thesis using A B lon lat by blast
qed



text \<open>
  On the raster of 600 by 400 with the bounds 88.3, 88.6, 22.7 and 22.5 of the
  specification, the step from pixel 299 to pixel 300 strictly increases the longitude
  and the step from pixel 199 to pixel 200 strictly decreases the latitude.
\<close>

theorem pixel_monotone_witness:
  "(\<exists>lon1 lon2.
      (\<forall>y. \<exists>lat. pixelToLatLon
          ((start 600 400 [])\<lparr>geoBounds := Some \<lparr>north = num_lit (227 / 10), south = num_lit (225 / 10),
                                   east = num_lit (886 / 10), west = num_lit (883 / 10)\<rparr>\<rparr>)
          (Fin 299) y = Inr (lon1, lat))
    \<and> (\<forall>y. \<exists>lat. pixelToLatLon
          ((start 600 400 [])\<lparr>geoBounds := Some \<lparr>north = num_lit (227 / 10), south = num_lit (225 / 10),
                                   east = num_lit (886 / 10), west = num_lit (883 / 10)\<rparr>\<rparr>)
          (Fin 300) y = Inr (lon2, lat))
    \<and> num_le lon1 lon2 \<and> num_less lon1 lon2)
 \<and> (\<exists>lat1 lat2.
      (\<forall>x. \<exists>lon. pixelToLatLon
          ((start 600 400 [])\<lparr>geoBounds := Some \<lparr>north = num_lit (227 / 10), south = num_lit (225 / 10),
                                   east = num_lit (886 / 10), west = num_lit (883 / 10)\<rparr>\<rparr>)
          x (Fin 199) = Inr (lon, lat1))
    \<and> (\<forall>x. \<exists>lon. pixelToLatLon
          ((start 600 400 [])\<lparr>geoBounds := Some \<lparr>north = num_lit (227 / 10), south = num_lit (225 / 10),
                                   east = num_lit (886 / 10), west = num_lit (883 / 10)\<rparr>\<rparr>)
          x (Fin 200) = Inr (lon, lat2))
    \<and> num_le lat2 lat1 \<and> num_less lat2 lat1)"
proof -
  let ?W = "6213560110887731 / 2 ^ 46 :: rat" and ?DX = "21110623253299 / 2 ^ 46 :: rat"
  let ?N = "6389481971331891 / 2 ^ 48 :: rat" and ?DY = "56294995342131 / 2 ^ 48 :: rat"
  let ?b = "\<lparr>north = num_lit (227 / 10), south = num_lit (225 / 10),
             east = num_lit (886 / 10), west = num_lit (883 / 10)\<rparr>"
  let ?st = "(start 600 400 [])\<lparr>geoBounds := Some ?b\<rparr>"
  have g: "geoBounds ?st = Some ?b" by simp
  have v: "valid_bounds ?b"
    unfolding valid_bounds_def GeoBounds.select_convs spec_literals by simp
  have ex: "num_sub (east ?b) (west ?b) = Fin ?DX"
    unfolding GeoBounds.select_convs spec_literals by (rule spec_extents)
  have ey: "num_sub (north ?b) (south ?b) = Fin ?DY"
    unfolding GeoBounds.select_convs spec_literals by (rule spec_extents)
  have wb: "west ?b = Fin ?W" and nb: "north ?b = Fin ?N"
    unfolding GeoBounds.select_convs by (rule spec_literals)+
  have hx: "0 \<le> (299::rat) \<and> 299 < (300::rat) \<and> 300 \<le> (of_nat (canvas_width ?st) :: rat)"
    and hy: "0 \<le> (199::rat) \<and> 199 < (200::rat) \<and> 200 \<le> (of_nat (canvas_height ?st) :: rat)"
    by (simp_all add: start_simps)
  have cw: "canvas_width ?st = 600" and ch: "canvas_height ?st = 400" by (simp_all add: start_simps)
  have gx: "canvas_width ?st < 2 ^ 53 \<and> \<bar>?W\<bar> + ?DX \<le> max_double
      \<and> 2 * ulp (\<bar>?W\<bar> + ?DX) + ulp ?DX + ?DX / 2 ^ 53 \<le> (300 - 299) / of_nat (canvas_width ?st) * ?DX"
    unfolding cw using spec_gap(1) [of "300 - 299"] spec_finite(1) by simp
  have gy: "canvas_height ?st < 2 ^ 53 \<and> \<bar>?N\<bar> + ?DY \<le> max_double
      \<and> 2 * ulp (\<bar>?N\<bar> + ?DY) + ulp ?DY + ?DY / 2 ^ 53 \<le> (200 - 199) / of_nat (canvas_height ?st) * ?DY"
    unfolding ch using spec_gap(2) [of "200 - 199"] spec_finite(2) by simp
  from pixel_monotone [OF g v ex ey wb nb, of 299 300 199 200] hx hy gx gy
  show ?thesis by blast
qed

text \<open>
  More generally, on that raster and with those bounds every step between two integer
  pixels strictly increases the longitude and strictly decreases the latitude.
\<close>

lemma spec_raster_longitudes:
  fixes i j :: nat
  assumes "i < j" and "j \<le> 600"
  shows "\<exists>lon1 lon2.
      (\<forall>y. \<exists>lat. pixelToLatLon
          ((start 600 400 [])\<lparr>geoBounds := Some \<lparr>north = num_lit (227 / 10), south = num_lit (225 / 10),
                                   east = num_lit (886 / 10), west = num_lit (883 / 10)\<rparr>\<rparr>)
          (Fin (of_nat i)) y = Inr (lon1, lat))
    \<and> (\<forall>y. \<exists>lat. pixelToLatLon
          ((start 600 400 [])\<lparr>geoBounds := Some \<lparr>north = num_lit (227 / 10), south = num_lit (225 / 10),
                                   east = num_lit (886 / 10), west = num_lit (883 / 10)\<rparr>\<rparr>)
          (Fin (of_nat j)) y = Inr (lon2, lat))
    \<and> num_less lon1 lon2"
proof -
  let ?W = "6213560110887731 / 2 ^ 46 :: rat" and ?DX = "21110623253299 / 2 ^ 46 :: rat"
  let ?st = "(start 600 400 [])\<lparr>geoBounds := Some \<lparr>north = num_lit (227 / 10), south = num_lit (225 / 10),
                                   east = num_lit (886 / 10), west = num_lit (883 / 10)\<rparr>\<rparr>"
  let ?lon = "\<lambda>x. num_add (Fin ?W) (num_mul (num_div (Fin x) (number_of_nat 600)) (Fin ?DX))"
  have lon: "\<forall>y. \<exists>lat. pixelToLatLon ?st (Fin x) y = Inr (?lon x, lat)" for x
    unfolding pixelToLatLon_def geo_simps option.case Let_def GeoBounds.select_convs
      spec_literals spec_extents start_simps
    by simp
  have "1 \<le> (of_nat j :: rat) - of_nat i" using assms(1) by (simp add: of_nat_diff [symmetric] del: of_nat_diff)
  then have gap: "2 * ulp (\<bar>?W\<bar> + ?DX) + ulp ?DX + ?DX / 2 ^ 53
      \<le> (of_nat j - of_nat i) / of_nat 600 * ?DX"
    by (rule spec_gap(1))
  have "num_less (?lon (of_nat i)) (?lon (of_nat j))"
    by (rule scaled_strict(1) [OF _ _ _ _ _ spec_extents_rounded(1) spec_finite(1) gap])
      (use assms in simp_all)
  with lon [of "of_nat i"] lon [of "of_nat j"] show ?thesis by blast
qed

lemma spec_raster_latitudes:
  fixes k l :: nat
  assumes "k < l" and "l \<le> 400"
  shows "\<exists>lat1 lat2.
      (\<forall>x. \<exists>lon. pixelToLatLon
          ((start 600 400 [])\<lparr>geoBounds := Some \<lparr>north = num_lit (227 / 10), south = num_lit (225 / 10),
                                   east = num_lit (886 / 10), west = num_lit (883 / 10)\<rparr>\<rparr>)
          x (Fin (of_nat k)) = Inr (lon, lat1))
    \<and> (\<forall>x. \<exists>lon. pixelToLatLon
          ((start 600 400 [])\<lparr>geoBounds := Some \<lparr>north = num_lit (227 / 10), south = num_lit (225 / 10),
                                   east = num_lit (886 / 10), west = num_lit (883 / 10)\<rparr>\<rparr>)
          x (Fin (of_nat l)) = Inr (lon, lat2))
    \<and> num_less lat2 lat1"
proof -
  let ?N = "6389481971331891 / 2 ^ 48 :: rat" and ?DY = "56294995342131 / 2 ^ 48 :: rat"
  let ?st = "(start 600 400 [])\<lparr>geoBounds := Some \<lparr>north = num_lit (227 / 10), south = num_lit (225 / 10),
                                   east = num_lit (886 / 10), west = num_lit (883 / 10)\<rparr>\<rparr>"
  let ?lat = "\<lambda>y. num_sub (Fin ?N) (num_mul (num_div (Fin y) (number_of_nat 400)) (Fin ?DY))"
  have lat: "\<forall>x. \<exists>lon. pixelToLatLon ?st x (Fin y) = Inr (lon, ?lat y)" for y
    unfolding pixelToLatLon_def geo_simps option.case Let_def GeoBounds.select_convs
      spec_literals spec_extents start_simps
    by simp
  have "1 \<le> (of_nat l :: rat) - of_nat k" using assms(1) by (simp add: of_nat_diff [symmetric] del: of_nat_diff)
  then have gap: "2 * ulp (\<bar>?N\<bar> + ?DY) + ulp ?DY + ?DY / 2 ^ 53
      \<le> (of_nat l - of_nat k) / of_nat 400 * ?DY"
    by (rule spec_gap(2))
  have "num_less (?lat (of_nat l)) (?lat (of_nat k))"
    by (rule scaled_strict(2) [OF _ _ _ _ _ spec_extents_rounded(2) spec_finite(2) gap])
      (use assms in simp_all)
  with lat [of "of_nat k"] lat [of "of_nat l"] show ?thesis by blast
qed


text \<open>
  Strictness is lost where the step is below the spacing: with \<open>east\<close> and \<open>north\<close>
  one spacing above \<open>west = south = 1\<close> on a raster of 4 by 4, the pixels 0 and 1 get the
  same longitude and the same latitude (\<open>1 + 2 ^ -54\<close> rounds to 1, and
  \<open>1 + 2 ^ -52 - 2 ^ -54\<close> rounds to \<open>1 + 2 ^ -52\<close>). And where an extent overflows
  there is no order at all: with the bounds at the largest finite Number and its
  negative, \<open>east - west\<close> is \<open>Infinity\<close>, pixel 0 gets \<open>0 * Infinity = NaN\<close> for both
  coordinates, and no comparison with \<open>NaN\<close> holds.
\<close>

theorem strictness_lost_to_rounding:
  "valid_bounds \<lparr>north = Fin (1 + 1 / 2 ^ 52), south = Fin 1, east = Fin (1 + 1 / 2 ^ 52), west = Fin 1\<rparr>
   \<and> num_less (Fin 0) (Fin 1)
   \<and> pixelToLatLon
       ((start 4 4 [])\<lparr>geoBounds := Some \<lparr>north = Fin (1 + 1 / 2 ^ 52), south = Fin 1,
                                            east = Fin (1 + 1 / 2 ^ 52), west = Fin 1\<rparr>\<rparr>)
       (Fin 0) (Fin 0) = Inr (Fin 1, Fin (1 + 1 / 2 ^ 52))
   \<and> pixelToLatLon
       ((start 4 4 [])\<lparr>geoBounds := Some \<lparr>north = Fin (1 + 1 / 2 ^ 52), south = Fin 1,
                                            east = Fin (1 + 1 / 2 ^ 52), west = Fin 1\<rparr>\<rparr>)
       (Fin 1) (Fin 1) = Inr (Fin 1, Fin (1 + 1 / 2 ^ 52))
   \<and> \<not> num_less (Fin 1) (Fin 1)
   \<and> \<not> num_less (Fin (1 + 1 / 2 ^ 52)) (Fin (1 + 1 / 2 ^ 52))
   \<and> valid_bounds \<lparr>north = Fin max_double, south = Fin (- max_double),
                    east = Fin max_double, west = Fin (- max_double)\<rparr>
   \<and> pixelToLatLon
       ((start 4 4 [])\<lparr>geoBounds := Some \<lparr>north = Fin max_double, south = Fin (- max_double),
                                            east = Fin max_double, west = Fin (- max_double)\<rparr>\<rparr>)
       (Fin 0) (Fin 0) = Inr (NaN, NaN)
   \<and> pixelToLatLon
       ((start 4 4 [])\<lparr>geoBounds := Some \<lparr>north = Fin max_double, south = Fin (- max_double),
                                            east = Fin max_double, west = Fin (- max_double)\<rparr>\<rparr>)
       (Fin 1) (Fin 1) = Inr (PosInf, NegInf)
   \<and> \<not> num_le NaN PosInf \<and> \<not> num_le NegInf NaN"
proof -
  let ?H = "1 + 1 / 2 ^ 52 :: rat"
  let ?b = "\<lparr>north = Fin ?H, south = Fin 1, east = Fin ?H, west = Fin 1\<rparr>"
  let ?st = "(start 4 4 [])\<lparr>geoBounds := Some ?b\<rparr>"
  let ?c = "\<lparr>north = Fin max_double, south = Fin (- max_double),
             east = Fin max_double, west = Fin (- max_double)\<rparr>"
  let ?su = "(start 4 4 [])\<lparr>geoBounds := Some ?c\<rparr>"
  have w: "number_of_nat (canvas_width (start 4 4 [])) = Fin 4"
    "number_of_nat (canvas_height (start 4 4 [])) = Fin 4"
    using number_of_nat_exact [of 4] by (simp_all add: start_simps)
  have q: "num_div (Fin 0) (Fin 4) = Fin 0" "num_div (Fin 1) (Fin 4) = Fin (1 / 4)"
    using round64_int [of 0] round64_exact [of "1 / 4" 1 "- 2"] by (simp_all add: power_int_minus)
  have d: "num_sub (Fin ?H) (Fin 1) = Fin (1 / 2 ^ 52)"
    using round64_exact [of "1 / 2 ^ 52" 1 "- 52"] by (simp add: num_sub_def power_int_minus)
  have p: "num_mul (Fin 0) (Fin (1 / 2 ^ 52)) = Fin 0"
    "num_mul (Fin (1 / 4)) (Fin (1 / 2 ^ 52)) = Fin (1 / 2 ^ 54)"
    using round64_int [of 0] round64_exact [of "1 / 2 ^ 54" 1 "- 54"]
    by (simp_all add: power_int_minus)
  have a0: "num_add (Fin 1) (Fin 0) = Fin 1" using round64_int [of 1] by simp
  have s0: "num_sub (Fin ?H) (Fin 0) = Fin ?H"
    using round64_exact [of ?H "2 ^ 52 + 1" "- 52"] by (simp add: num_sub_def power_int_minus)
  have "rne ((1 + 1 / 2 ^ 54) / 2 powi (0 - 52)) = 2 ^ 52"
    by (rule rne_down) (simp_all add: power_int_minus)
  then have a1: "num_add (Fin 1) (Fin (1 / 2 ^ 54)) = Fin 1"
    using round64_near [of 0 "1 + 1 / 2 ^ 54" "2 ^ 52"]
    by (simp add: power_int_minus)
  have "rne ((1 + 1 / 2 ^ 52 - 1 / 2 ^ 54) / 2 powi (0 - 52)) = 2 ^ 52 + 1"
    by (rule rne_up) (simp_all add: power_int_minus)
  then have s1: "num_sub (Fin ?H) (Fin (1 / 2 ^ 54)) = Fin ?H"
    using round64_near [of 0 "1 + 1 / 2 ^ 52 - 1 / 2 ^ 54" "2 ^ 52 + 1"]
    by (simp add: num_sub_def power_int_minus)
  have v: "valid_bounds ?b" by (simp add: valid_bounds_def)
  have c0: "pixelToLatLon ?st (Fin 0) (Fin 0) = Inr (Fin 1, Fin ?H)"
    by (simp only: pixelToLatLon_def geo_simps option.case Let_def GeoBounds.select_convs
        w q d p a0 s0)
  have c1: "pixelToLatLon ?st (Fin 1) (Fin 1) = Inr (Fin 1, Fin ?H)"
    by (simp only: pixelToLatLon_def geo_simps option.case Let_def GeoBounds.select_convs
        w q d p a1 s1)
  have m: "0 < max_double" by (simp add: max_double_def)
  have "2 ^ 1024 \<le> max_double + max_double" by (simp add: max_double_def)
  then have "round64 (max_double + max_double) = PosInf" by (rule round64_overflow)
  then have e: "num_sub (Fin max_double) (Fin (- max_double)) = PosInf"
    by (simp add: num_sub_def)
  have o: "num_mul (Fin 0) PosInf = NaN" "num_mul (Fin (1 / 4)) PosInf = PosInf"
    "num_add (Fin (- max_double)) NaN = NaN" "num_sub (Fin max_double) NaN = NaN"
    "num_add (Fin (- max_double)) PosInf = PosInf" "num_sub (Fin max_double) PosInf = NegInf"
    by (simp_all add: num_sub_def)
  have u: "valid_bounds ?c" using m by (simp add: valid_bounds_def)
  have o0: "pixelToLatLon ?su (Fin 0) (Fin 0) = Inr (NaN, NaN)"
    by (simp only: pixelToLatLon_def geo_simps option.case Let_def GeoBounds.select_convs
        w q e o)
  have o1: "pixelToLatLon ?su (Fin 1) (Fin 1) = Inr (PosInf, NegInf)"
    by (simp only: pixelToLatLon_def geo_simps option.case Let_def GeoBounds.select_convs
        w q e o)
  show ?thesis using v c0 c1 u o0 o1 by simp
qed

section \<open>The colour mask\<close>

declare mask_loop.simps [simp del]
declare decimal.simps [simp del]

lemma mask_loop_length: "length (mask_loop d lower upper i msk) = length msk"
proof (induction d lower upper i msk rule: mask_loop.induct)
  case (1 d lower upper i msk)
  show ?case
  proof (cases "i < length msk")
    case True
    then show ?thesis using "1.IH" by (subst mask_loop.simps) simp
  next
    case False
    then show ?thesis by (subst mask_loop.simps) simp
  qed
qed

lemma mask_loop_nth:
  "k < length msk \<Longrightarrow>
   mask_loop d lower upper i msk ! k = (if i \<le> k then mask_entry d lower upper k else msk ! k)"
proof (induction d lower upper i msk rule: mask_loop.induct)
  case (1 d lower upper i msk)
  show ?case
  proof (cases "i < length msk")
    case True
    have "mask_loop d lower upper i msk =
          mask_loop d lower upper (Suc i) (msk[i := mask_entry d lower upper i])"
      using True by (subst mask_loop.simps) simp
    then show ?thesis using "1.IH" [OF True] "1.prems" True
      by (auto simp: nth_list_update not_less_eq_eq)
  next
    case False
    then show ?thesis using "1.prems" by (subst mask_loop.simps) simp
  qed
qed

lemma maskByColor_length:
  "length (maskByColor st lower upper) = canvas_width st * canvas_height st"
  by (simp add: maskByColor_def mask_loop_length)

lemma maskByColor_nth:
  "i < canvas_width st * canvas_height st \<Longrightarrow>
   maskByColor st lower upper ! i = mask_entry (canvas_data st) lower upper i"
  by (simp add: maskByColor_def mask_loop_nth)

text \<open>
  Claim C2. The mask computed for a target colour \<open>(tr, tg, tb)\<close> and a tolerance
  \<open>tol\<close> (the bounds of \<open>onImageClick\<close>, then \<open>maskByColor\<close>) has one entry per pixel
  of the raster. The entry of pixel \<open>i\<close>, whose channels are \<open>r\<close>, \<open>g\<close>, \<open>b\<close>, is 1
  when each channel lies in the inclusive window
  \<open>[max 0 (t - tol), min 255 (t + tol)]\<close> around the target channel \<open>t\<close>, and 0
  otherwise. With tolerance 0 and a target within \<open>[0, 255]\<close> the entry is 1 exactly
  for a pixel equal to the target.
\<close>

theorem mask_by_tolerance:
  assumes "length (canvas_data st) = 4 * (canvas_width st * canvas_height st)"
    and "i < canvas_width st * canvas_height st"
    and "r = uint (canvas_data st ! (i * 4))"
    and "g = uint (canvas_data st ! (i * 4 + 1))"
    and "b = uint (canvas_data st ! (i * 4 + 2))"
  shows "length (maskByColor st (lower_of tol (tr, tg, tb)) (upper_of tol (tr, tg, tb)))
           = canvas_width st * canvas_height st
       \<and> maskByColor st (lower_of tol (tr, tg, tb)) (upper_of tol (tr, tg, tb)) ! i
           = (if max 0 (tr - tol) \<le> r \<and> r \<le> min 255 (tr + tol)
               \<and> max 0 (tg - tol) \<le> g \<and> g \<le> min 255 (tg + tol)
               \<and> max 0 (tb - tol) \<le> b \<and> b \<le> min 255 (tb + tol) then 1 else 0)
       \<and> (0 \<le> tr \<and> tr \<le> 255 \<and> 0 \<le> tg \<and> tg \<le> 255 \<and> 0 \<le> tb \<and> tb \<le> 255 \<longrightarrow>
           maskByColor st (lower_of 0 (tr, tg, tb)) (upper_of 0 (tr, tg, tb)) ! i
             = (if (r, g, b) = (tr, tg, tb) then 1 else 0))"
proof -
  have j: "i * 4 < length (canvas_data st)" "i * 4 + 1 < length (canvas_data st)"
    "i * 4 + 2 < length (canvas_data st)"
    using assms(1,2) by simp_all
  have e: "mask_entry (canvas_data st) (l0, l1, l2) (u0, u1, u2) i
      = (if l0 \<le> r \<and> r \<le> u0 \<and> l1 \<le> g \<and> g \<le> u1 \<and> l2 \<le> b \<and> b \<le> u2 then 1 else 0)"
    for l0 l1 l2 u0 u1 u2
    using j assms(3-5) by (simp add: mask_entry_def data_at_def Let_def)
  show ?thesis
    using assms(2) by (auto simp: maskByColor_length maskByColor_nth lower_of_def upper_of_def e)
qed

text \<open>
  On a raster of the two pixels \<open>(120, 90, 110)\<close> and \<open>(140, 100, 100)\<close>, the target
  \<open>(100, 100, 100)\<close> with tolerance 30 matches the first pixel and not the second;
  with tolerance 0 it matches neither.
\<close>

theorem mask_by_tolerance_witness:
  "length (maskByColor (start 2 1 [120, 90, 110, 255, 140, 100, 100, 255])
             (lower_of 30 (100, 100, 100)) (upper_of 30 (100, 100, 100))) = 2
   \<and> maskByColor (start 2 1 [120, 90, 110, 255, 140, 100, 100, 255])
        (lower_of 30 (100, 100, 100)) (upper_of 30 (100, 100, 100)) ! 0 = 1
   \<and> maskByColor (start 2 1 [120, 90, 110, 255, 140, 100, 100, 255])
        (lower_of 30 (100, 100, 100)) (upper_of 30 (100, 100, 100)) ! 1 = 0
   \<and> maskByColor (start 2 1 [120, 90, 110, 255, 140, 100, 100, 255])
        (lower_of 0 (100, 100, 100)) (upper_of 0 (100, 100, 100)) ! 0 = 0"
proof -
  let ?st = "start 2 1 [120, 90, 110, 255, 140, 100, 100, 255]"
  have a: "length (canvas_data ?st) = 4 * (canvas_width ?st * canvas_height ?st)"
    by (simp add: start_simps)
  have i0: "0 < canvas_width ?st * canvas_height ?st" by (simp add: start_simps)
  have i1: "1 < canvas_width ?st * canvas_height ?st" by (simp add: start_simps)
  have p0: "120 = uint (canvas_data ?st ! (0 * 4))" "90 = uint (canvas_data ?st ! (0 * 4 + 1))"
    "110 = uint (canvas_data ?st ! (0 * 4 + 2))"
    by (simp_all add: start_simps)
  have p1: "140 = uint (canvas_data ?st ! (1 * 4))" "100 = uint (canvas_data ?st ! (1 * 4 + 1))"
    "100 = uint (canvas_data ?st ! (1 * 4 + 2))"
    by (simp_all add: start_simps)
  from mask_by_tolerance [OF a i0 p0, of 30 100 100 100]
    mask_by_tolerance [OF a i1 p1, of 30 100 100 100]
  show ?thesis by (simp add: start_simps)
qed

section \<open>The feature list\<close>

lemma onImageClick_frame:
  "canvas_width (onImageClick e st) = canvas_width st"
  "canvas_height (onImageClick e st) = canvas_height st"
  "canvas_data (onImageClick e st) = canvas_data st"
  "image_loaded (onImageClick e st) = image_loaded st"
  "geoBounds (onImageClick e st) = geoBounds st"
  "downloads (onImageClick e st) = downloads st"
  by (simp_all add: onImageClick_def Let_def split: option.splits)

lemma clicked_rgb_onImageClick:
  "clicked_rgb (onImageClick e st) = clicked_rgb st"
  by (intro ext) (simp add: clicked_rgb_def onImageClick_frame)

lemma picked_onImageClick:
  "picked (onImageClick e st) = picked st @
     (if image_loaded st \<and> geoBounds st \<noteq> None \<and> reply e \<noteq> None \<and> reply e \<noteq> Some []
      then [\<lparr>color = clicked_rgb st (click_x e) (click_y e), label = the (reply e), contours = []\<rparr>]
      else [])"
  by (auto simp: onImageClick_def Let_def dummyFindContours_def split: option.splits)

text \<open>
  Claim C9. After any run of clicks the list \<open>picked\<close> is the list from before
  followed by one entry (colour, label, contours) for each click that added a feature
  (image loaded, bounds set, a non-empty label given), in the order of the clicks:
  nothing is reordered, merged or dropped, and equal entries stay apart.
\<close>

theorem picked_in_click_order:
  "picked (clicks es st) = picked st @
     (if image_loaded st \<and> geoBounds st \<noteq> None
      then map (\<lambda>e. \<lparr>color = clicked_rgb st (click_x e) (click_y e),
                    label = the (reply e), contours = []\<rparr>)
             (filter (\<lambda>e. reply e \<noteq> None \<and> reply e \<noteq> Some []) es)
      else [])"
proof (induction es arbitrary: st)
  case Nil
  then show ?case by simp
next
  case (Cons e es)
  show ?case
    by (auto simp: Cons.IH onImageClick_frame clicked_rgb_onImageClick picked_onImageClick)
qed

text \<open>
  Four clicks on a loaded image of one pixel: the second is cancelled at the prompt,
  the third falls outside the bitmap, the fourth repeats the first. Three features are
  listed, in click order, the repeated one twice.
\<close>

theorem picked_in_click_order_witness:
  "picked (clicks
      [\<lparr>click_x = 0, click_y = 0, reply = Some ''road''\<rparr>,
       \<lparr>click_x = 0, click_y = 0, reply = None\<rparr>,
       \<lparr>click_x = 5, click_y = 0, reply = Some ''river''\<rparr>,
       \<lparr>click_x = 0, click_y = 0, reply = Some ''road''\<rparr>]
      ((start 1 1 [10, 20, 30, 255])\<lparr>image_loaded := True,
          geoBounds := Some \<lparr>north = Fin 1, south = Fin 0, east = Fin 1, west = Fin 0\<rparr>\<rparr>))
   = [\<lparr>color = (10, 20, 30), label = ''road'', contours = []\<rparr>,
      \<lparr>color = (0, 0, 0), label = ''river'', contours = []\<rparr>,
      \<lparr>color = (10, 20, 30), label = ''road'', contours = []\<rparr>]"
  using picked_in_click_order [of
      "[\<lparr>click_x = 0, click_y = 0, reply = Some ''road''\<rparr>,
       \<lparr>click_x = 0, click_y = 0, reply = None\<rparr>,
       \<lparr>click_x = 5, click_y = 0, reply = Some ''river''\<rparr>,
       \<lparr>click_x = 0, click_y = 0, reply = Some ''road''\<rparr>]"
      "(start 1 1 [10, 20, 30, 255])\<lparr>image_loaded := True,
          geoBounds := Some \<lparr>north = Fin 1, south = Fin 0, east = Fin 1, west = Fin 0\<rparr>\<rparr>"]
  by (simp add: start_def clicked_rgb_def byte_or_zero_def data_at_def)

section \<open>Storing the bounds\<close>

text \<open>
  Claim C8, as the code has it. \<open>setGeoBounds\<close> checks nothing: for any four Numbers
  it returns normally and stores exactly these, so the stored bounds satisfy
  \<open>west < east\<close> and \<open>south < north\<close> only when the caller passed such values.
\<close>

theorem setGeoBounds_stores_unchecked:
  "setGeoBounds n s e w st =
     Inr (st\<lparr>geoBounds := Some \<lparr>north = n, south = s, east = e, west = w\<rparr>\<rparr>)
   \<and> valid_bounds \<lparr>north = n, south = s, east = e, west = w\<rparr> = (num_less w e \<and> num_less s n)"
  by (simp add: setGeoBounds_def valid_bounds_def)

text \<open>
  Bounds with \<open>west = 1 > east = 0\<close> and \<open>south = 1 > north = 0\<close> are accepted and
  stored, with no error.
\<close>

theorem invalid_bounds_stored:
  "setGeoBounds (Fin 0) (Fin 1) (Fin 0) (Fin 1) (start 600 400 []) =
     Inr ((start 600 400 [])\<lparr>geoBounds := Some \<lparr>north = Fin 0, south = Fin 1, east = Fin 0, west = Fin 1\<rparr>\<rparr>)
   \<and> \<not> valid_bounds \<lparr>north = Fin 0, south = Fin 1, east = Fin 0, west = Fin 1\<rparr>"
  by (simp add: setGeoBounds_def valid_bounds_def)

section \<open>The exported document\<close>

lemma enumerate_map_nth:
  "map (\<lambda>(i, x). f i x) (enumerate 0 xs) = map (\<lambda>i. f i (xs ! i)) [0..<length xs]"
  by (rule nth_equalityI) (simp_all add: nth_enumerate_eq)

lemma traverse_Inr:
  "(\<And>x. x \<in> set xs \<Longrightarrow> f x = Inr (g x)) \<Longrightarrow> traverse f xs = Inr (map g xs)"
  by (induction xs) simp_all

lemma traverse_Inl:
  "x \<in> set xs \<Longrightarrow> f x = Inl TypeError \<Longrightarrow> traverse f xs = Inl TypeError"
proof (induction xs)
  case Nil
  then show ?case by simp
next
  case (Cons a xs)
  show ?case
  proof (cases "f a")
    case (Inl e)
    then show ?thesis by (cases e) simp
  next
    case (Inr y)
    then have "x \<in> set xs" using Cons.prems by auto
    then show ?thesis using Cons.IH Cons.prems(2) Inr by simp
  qed
qed

lemma point_not_iterable: "\<not> iterable e \<Longrightarrow> point e = Inl TypeError"
  by (cases e) (simp_all add: iterable_def items_def point_def)

lemma is_pair_point: "is_pair e \<Longrightarrow> point e = Inr e"
  by (induction e rule: is_pair.induct) (simp_all add: point_def items_def elem_def)

lemma is_finite_pair_stable: "is_finite_pair e \<Longrightarrow> JSON_stringify e = e"
  by (induction e rule: is_finite_pair.induct) simp_all

lemma is_finite_pair_defined: "is_finite_pair e \<Longrightarrow> e \<noteq> JUndefined"
  by (induction e rule: is_finite_pair.induct) simp_all

lemma feature_Inr:
  assumes "traverse point entries = Inr pts"
  shows "feature c i (JArray entries) =
     Inr (JObject [
            (''type'', JString ''Feature''),
            (''geometry'', JObject [
               (''type'', JString ''Polygon''),
               (''coordinates'', JArray [JArray pts])]),
            (''properties'', JObject [
               (''id'', JNumber (number_of_nat i)),
               (''color'', JString (rgb_string c))])])"
  using assms by (simp add: feature_def elements_def)

lemma features_Inr:
  assumes "\<And>i. i < length rings \<Longrightarrow> feature c i (rings ! i) = Inr (F i)"
  shows "features (JArray rings) c = Inr (map F [0..<length rings])"
proof -
  have "(case x of (i, ring) \<Rightarrow> feature c i ring) = Inr ((\<lambda>(i, ring). F i) x)"
    if "x \<in> set (enumerate 0 rings)" for x
  proof -
    obtain i ring where x: "x = (i, ring)" by (cases x)
    with that have "i < length rings" "ring = rings ! i"
      by (auto simp: in_set_enumerate_eq)
    then show ?thesis using assms [of i] by (simp add: x)
  qed
  then have "traverse (\<lambda>(i, ring). feature c i ring) (enumerate 0 rings)
      = Inr (map (\<lambda>(i, ring). F i) (enumerate 0 rings))"
    by (rule traverse_Inr)
  then show ?thesis by (simp add: features_def elements_def enumerate_map_nth)
qed

lemma features_Inl:
  assumes "i < length rings" and "feature c i (rings ! i) = Inl TypeError"
  shows "features (JArray rings) c = Inl TypeError"
proof -
  have "(case (i, rings ! i) of (i, ring) \<Rightarrow> feature c i ring) = Inl TypeError"
    using assms(2) by simp
  moreover have "(i, rings ! i) \<in> set (enumerate 0 rings)"
    using assms(1) by (simp add: in_set_enumerate_eq)
  ultimately have "traverse (\<lambda>(i, ring). feature c i ring) (enumerate 0 rings) = Inl TypeError"
    by (intro traverse_Inl)
  then show ?thesis by (simp add: features_def elements_def)
qed

lemma export_Inr:
  assumes "features polygons c = Inr fs"
  shows "exportGeoJSON polygons c st =
     Inr (st\<lparr>downloads := downloads st @
       [\<lparr>file_name = ''features.geojson'', mime_type = ''application/json'',
         json_of = JSON_stringify
           (JObject [(''type'', JString ''FeatureCollection''), (''features'', JArray fs)])\<rparr>]\<rparr>)"
  using assms by (simp add: exportGeoJSON_def geojson_def del: JSON_stringify.simps)

lemma export_Inl: "features polygons c = Inl TypeError \<Longrightarrow> exportGeoJSON polygons c st = Inl TypeError"
  by (simp add: exportGeoJSON_def geojson_def)

lemma rgb_string_eq:
  "rgb_string (r, g, b) = ''rgb('' @ decimal r @ '','' @ decimal g @ '','' @ decimal b @ '')''"
  by (simp add: rgb_string_def)

lemma ring_stable:
  "list_all is_finite_pair ring \<Longrightarrow>
   map ((\<lambda>v. if v = JUndefined then JNull else v) \<circ> JSON_stringify) ring = ring"
  by (induction ring) (simp_all add: is_finite_pair_stable is_finite_pair_defined)

lemma traverse_pairs: "list_all is_pair ring \<Longrightarrow> traverse point ring = Inr ring"
  using traverse_Inr [of ring point "\<lambda>e. e"] by (simp add: list_all_iff is_pair_point)

lemma ring_of_pairs:
  assumes "ring_of is_pair ring"
  shows "feature c i ring =
     Inr (JObject [
            (''type'', JString ''Feature''),
            (''geometry'', JObject [
               (''type'', JString ''Polygon''),
               (''coordinates'', JArray [ring])]),
            (''properties'', JObject [
               (''id'', JNumber (number_of_nat i)),
               (''color'', JString (rgb_string c))])])"
proof (cases ring)
  case (JArray entries)
  then have "traverse point entries = Inr entries"
    using assms by (intro traverse_pairs) (simp add: ring_of_def)
  then show ?thesis unfolding JArray by (rule feature_Inr)
qed (use assms in \<open>simp_all add: ring_of_def\<close>)

lemma ring_of_finite_pairs: "ring_of is_finite_pair ring \<Longrightarrow> JSON_stringify ring = ring"
  by (cases ring) (simp_all add: ring_of_def ring_stable)

lemma ring_of_defined: "ring_of entry ring \<Longrightarrow> ring \<noteq> JUndefined"
  by (cases ring) (simp_all add: ring_of_def)

text \<open>
  Claim C3. For \<open>n\<close> rings of 2-tuples and a colour \<open>(r, g, b)\<close>, \<open>exportGeoJSON\<close>
  returns and saves the file \<open>features.geojson\<close> whose text is the serialisation of a
  FeatureCollection with, in the order of the rings, one Feature per ring: its geometry
  is a Polygon whose coordinates are the one-element list holding the ring as it was
  given, its \<open>id\<close> is the index of the ring and its \<open>color\<close> is the text \<open>rgb(r,g,b)\<close>
  with the channels in decimal. When every coordinate is a finite Number (and the
  rings are fewer than \<open>2 ^ 32\<close>, the bound on the length of an array) the
  serialisation changes nothing: the file denotes exactly that document.
\<close>

theorem export_of_rings:
  assumes "two_tuples (JArray rings)" and "r \<le> 255" and "g \<le> 255" and "b \<le> 255"
  shows "(let doc =
       JObject [
         (''type'', JString ''FeatureCollection''),
         (''features'', JArray (map (\<lambda>i.
            JObject [
              (''type'', JString ''Feature''),
              (''geometry'', JObject [
                 (''type'', JString ''Polygon''),
                 (''coordinates'', JArray [rings ! i])]),
              (''properties'', JObject [
                 (''id'', JNumber (number_of_nat i)),
                 (''color'', JString (''rgb('' @ decimal r @ '','' @ decimal g @ '','' @ decimal b @ '')''))])])
            [0..<length rings]))]
     in exportGeoJSON (JArray rings) (r, g, b) st =
          Inr (st\<lparr>downloads := downloads st @
            [\<lparr>file_name = ''features.geojson'', mime_type = ''application/json'',
              json_of = JSON_stringify doc\<rparr>]\<rparr>)
      \<and> (finite_two_tuples (JArray rings) \<and> length rings < 2 ^ 32 \<longrightarrow>
          exportGeoJSON (JArray rings) (r, g, b) st =
            Inr (st\<lparr>downloads := downloads st @
              [\<lparr>file_name = ''features.geojson'', mime_type = ''application/json'',
                json_of = doc\<rparr>]\<rparr>)))"
proof -
  let ?F = "\<lambda>i. JObject [
              (''type'', JString ''Feature''),
              (''geometry'', JObject [
                 (''type'', JString ''Polygon''),
                 (''coordinates'', JArray [rings ! i])]),
              (''properties'', JObject [
                 (''id'', JNumber (number_of_nat i)),
                 (''color'', JString (''rgb('' @ decimal r @ '','' @ decimal g @ '','' @ decimal b @ '')''))])]"
  let ?doc = "JObject [(''type'', JString ''FeatureCollection''),
                      (''features'', JArray (map ?F [0..<length rings]))]"
  have "feature (r, g, b) i (rings ! i) = Inr (?F i)" if "i < length rings" for i
  proof -
    have "ring_of is_pair (rings ! i)"
      using assms(1) that by (simp add: two_tuples_def list_all_length)
    then show ?thesis by (simp only: ring_of_pairs rgb_string_eq)
  qed
  then have "features (JArray rings) (r, g, b) = Inr (map ?F [0..<length rings])"
    by (rule features_Inr)
  then have e: "exportGeoJSON (JArray rings) (r, g, b) st =
          Inr (st\<lparr>downloads := downloads st @
            [\<lparr>file_name = ''features.geojson'', mime_type = ''application/json'',
              json_of = JSON_stringify ?doc\<rparr>]\<rparr>)"
    by (rule export_Inr)
  have "JSON_stringify ?doc = ?doc"
    if f: "finite_two_tuples (JArray rings)" and n: "length rings < 2 ^ 32"
  proof -
    have "JSON_stringify (?F i) = ?F i" if "i < length rings" for i
    proof -
      have "ring_of is_finite_pair (rings ! i)"
        using f that by (simp add: finite_two_tuples_def list_all_length)
      moreover have "i < 2 ^ 53" using that n by simp
      ultimately show ?thesis
        by (simp add: ring_of_finite_pairs ring_of_defined number_of_nat_exact)
    qed
    then have "map (\<lambda>v. if v = JUndefined then JNull else v)
                 (map JSON_stringify (map ?F [0..<length rings])) = map ?F [0..<length rings]"
      by (simp add: map_idI)
    then show ?thesis by simp
  qed
  with e show ?thesis by (simp only: Let_def) simp
qed

text \<open>
  The rectangular ring \<open>[[0,0],[10,0],[10,10],[0,10],[0,0]]\<close> with colour
  \<open>(255, 0, 0)\<close> gives one Polygon feature of colour \<open>rgb(255,0,0)\<close>, with the ring
  unchanged.
\<close>

theorem export_of_rings_witness:
  "exportGeoJSON
       (JArray [JArray [JArray [JNumber (Fin 0), JNumber (Fin 0)], JArray [JNumber (Fin 10), JNumber (Fin 0)],
         JArray [JNumber (Fin 10), JNumber (Fin 10)], JArray [JNumber (Fin 0), JNumber (Fin 10)],
         JArray [JNumber (Fin 0), JNumber (Fin 0)]]])
       (255, 0, 0) (start 600 400 []) =
     Inr ((start 600 400 [])\<lparr>downloads :=
       [\<lparr>file_name = ''features.geojson'', mime_type = ''application/json'',
         json_of = JObject [
           (''type'', JString ''FeatureCollection''),
           (''features'', JArray [
              JObject [
                (''type'', JString ''Feature''),
                (''geometry'', JObject [
                   (''type'', JString ''Polygon''),
                   (''coordinates'', JArray [JArray [
                      JArray [JNumber (Fin 0), JNumber (Fin 0)],
                      JArray [JNumber (Fin 10), JNumber (Fin 0)],
                      JArray [JNumber (Fin 10), JNumber (Fin 10)],
                      JArray [JNumber (Fin 0), JNumber (Fin 10)],
                      JArray [JNumber (Fin 0), JNumber (Fin 0)]]])]),
                (''properties'', JObject [
                   (''id'', JNumber (Fin 0)),
                   (''color'', JString ''rgb(255,0,0)'')])]])]\<rparr>]\<rparr>)"
  using export_of_rings [of
      "[JArray [JArray [JNumber (Fin 0), JNumber (Fin 0)], JArray [JNumber (Fin 10), JNumber (Fin 0)],
         JArray [JNumber (Fin 10), JNumber (Fin 10)], JArray [JNumber (Fin 0), JNumber (Fin 10)],
         JArray [JNumber (Fin 0), JNumber (Fin 0)]]]" 255 0 0 "start 600 400 []"]
    number_of_nat_exact [of 0]
  by (simp add: two_tuples_def finite_two_tuples_def ring_of_def decimal.simps start_simps)

lemma not_all_iterable:
  assumes "\<not> list_all (list_all iterable) rings"
  shows "\<exists>i e. i < length rings \<and> e \<in> set (rings ! i) \<and> \<not> iterable e"
proof -
  from assms obtain ring where r: "ring \<in> set rings" and "\<not> list_all iterable ring"
    by (auto simp: list_all_iff)
  then obtain e where e: "e \<in> set ring" "\<not> iterable e"
    by (auto simp: list_all_iff)
  from r obtain i where "i < length rings" "rings ! i = ring"
    by (auto simp: in_set_conv_nth)
  with e show ?thesis by blast
qed

lemma arrays_of_lists:
  assumes "\<forall>v \<in> set vs. \<exists>xs. v = JArray xs"
  shows "\<exists>rings. vs = map JArray rings"
  using assms
proof (induction vs)
  case Nil
  then show ?case by simp
next
  case (Cons v vs)
  then obtain xs rings where "v = JArray xs" "vs = map JArray rings" by auto
  then have "v # vs = map JArray (xs # rings)" by simp
  then show ?case by (rule exI)
qed

lemma not_arrays_throws:
  assumes "\<forall>rings. polygons \<noteq> JArray (map JArray rings)"
  shows "features polygons c = Inl TypeError"
proof (cases polygons)
  case (JArray vs)
  have "\<not> (\<forall>v \<in> set vs. \<exists>xs. v = JArray xs)"
    using assms arrays_of_lists [of vs] unfolding JArray by blast
  then obtain v where v: "v \<in> set vs" "\<forall>xs. v \<noteq> JArray xs" by blast
  then obtain i where i: "i < length vs" "vs ! i = v" by (auto simp: in_set_conv_nth)
  have "elements v = Inl TypeError" using v(2) by (cases v) (simp_all add: elements_def)
  then have "feature c i (vs ! i) = Inl TypeError" by (simp add: feature_def i(2))
  with i(1) show ?thesis unfolding JArray by (rule features_Inl)
qed (simp_all add: features_def elements_def)

text \<open>
  Claim C4, as the code has it. \<open>exportGeoJSON\<close> validates nothing and has no error
  of its own. For an array of rings that are arrays, it returns and saves a document as
  soon as every entry is iterable (an array or a string): each entry is written as the
  pair of its first two items, an item that is missing as \<open>undefined\<close> (\<open>null\<close> in the
  text, like every Number that is not finite), and further items are dropped. When
  some entry is not iterable the call throws the TypeError of the array pattern and
  saves nothing; so it does when the argument is not an array of arrays.
\<close>

theorem export_coerces_or_throws:
  assumes "r \<le> 255" and "g \<le> 255" and "b \<le> 255"
  shows "exportGeoJSON (JArray (map JArray rings)) (r, g, b) st =
     (if list_all (list_all iterable) rings
      then Inr (st\<lparr>downloads := downloads st @
        [\<lparr>file_name = ''features.geojson'', mime_type = ''application/json'',
          json_of = JSON_stringify (JObject [
            (''type'', JString ''FeatureCollection''),
            (''features'', JArray (map (\<lambda>i.
               JObject [
                 (''type'', JString ''Feature''),
                 (''geometry'', JObject [
                    (''type'', JString ''Polygon''),
                    (''coordinates'', JArray [JArray (map (\<lambda>e.
                       (let xs = (case e of JArray ys \<Rightarrow> ys
                                   | JString s \<Rightarrow> map (\<lambda>c. JString [c]) s
                                   | _ \<Rightarrow> [])
                        in JArray [if 0 < length xs then xs ! 0 else JUndefined,
                                   if 1 < length xs then xs ! 1 else JUndefined]))
                       (rings ! i))])]),
                 (''properties'', JObject [
                    (''id'', JNumber (number_of_nat i)),
                    (''color'', JString (''rgb('' @ decimal r @ '','' @ decimal g @ '','' @ decimal b @ '')''))])])
               [0..<length rings]))])\<rparr>]\<rparr>)
      else Inl TypeError)
   \<and> ((\<forall>rings. polygons \<noteq> JArray (map JArray rings)) \<longrightarrow>
        exportGeoJSON polygons (r, g, b) st = Inl TypeError)"
proof (intro conjI impI)
  let ?p = "\<lambda>e. (let xs = (case e of JArray ys \<Rightarrow> ys
                                   | JString s \<Rightarrow> map (\<lambda>c. JString [c]) s
                                   | _ \<Rightarrow> [])
                        in JArray [if 0 < length xs then xs ! 0 else JUndefined,
                                   if 1 < length xs then xs ! 1 else JUndefined])"
  let ?F = "\<lambda>i. JObject [
                 (''type'', JString ''Feature''),
                 (''geometry'', JObject [
                    (''type'', JString ''Polygon''),
                    (''coordinates'', JArray [JArray (map ?p (rings ! i))])]),
                 (''properties'', JObject [
                    (''id'', JNumber (number_of_nat i)),
                    (''color'', JString (''rgb('' @ decimal r @ '','' @ decimal g @ '','' @ decimal b @ '')''))])]"
  show "exportGeoJSON (JArray (map JArray rings)) (r, g, b) st =
     (if list_all (list_all iterable) rings
      then Inr (st\<lparr>downloads := downloads st @
        [\<lparr>file_name = ''features.geojson'', mime_type = ''application/json'',
          json_of = JSON_stringify (JObject [
            (''type'', JString ''FeatureCollection''),
            (''features'', JArray (map ?F [0..<length rings]))])\<rparr>]\<rparr>)
      else Inl TypeError)"
  proof (cases "list_all (list_all iterable) rings")
    case True
    have p: "point e = Inr (?p e)" if "iterable e" for e
      using that by (cases e) (simp_all add: iterable_def point_def items_def elem_def Let_def)
    have "feature (r, g, b) i (map JArray rings ! i) = Inr (?F i)" if "i < length rings" for i
    proof -
      have "traverse point (rings ! i) = Inr (map ?p (rings ! i))"
      proof (rule traverse_Inr)
        fix e assume "e \<in> set (rings ! i)"
        then have "iterable e" using True that by (auto simp: list_all_iff)
        then show "point e = Inr (?p e)" by (rule p)
      qed
      then have "feature (r, g, b) i (JArray (rings ! i)) = Inr (?F i)"
        by (simp only: feature_Inr rgb_string_eq)
      then show ?thesis using that by simp
    qed
    then have "features (JArray (map JArray rings)) (r, g, b) = Inr (map ?F [0..<length rings])"
      using features_Inr [of "map JArray rings" "(r, g, b)" ?F] by simp
    then show ?thesis using True by (simp only: export_Inr if_True)
  next
    case False
    then obtain i e where i: "i < length rings" and e: "e \<in> set (rings ! i)"
      and n: "\<not> iterable e"
      using not_all_iterable by blast
    have "traverse point (rings ! i) = Inl TypeError"
      using e point_not_iterable [OF n] by (rule traverse_Inl)
    then have "feature (r, g, b) i (map JArray rings ! i) = Inl TypeError"
      using i by (simp add: feature_def elements_def)
    then have "features (JArray (map JArray rings)) (r, g, b) = Inl TypeError"
      using i by (intro features_Inl [of i]) simp_all
    then show ?thesis using False by (simp only: export_Inl if_False)
  qed
next
  assume "\<forall>rings. polygons \<noteq> JArray (map JArray rings)"
  then have "features polygons (r, g, b) = Inl TypeError" by (rule not_arrays_throws)
  then show "exportGeoJSON polygons (r, g, b) st = Inl TypeError" by (rule export_Inl)
qed

text \<open>
  A ring with the entry \<open>5\<close>, and the ring \<open>5\<close> itself, make the call throw.
\<close>

theorem export_coerces_or_throws_witness:
  "exportGeoJSON (JArray (map JArray [[JArray [JNumber (Fin 1), JNumber (Fin 2)], JNumber (Fin 5)]]))
     (255, 0, 0) (start 600 400 []) = Inl TypeError
   \<and> exportGeoJSON (JArray [JNumber (Fin 5)]) (255, 0, 0) (start 600 400 []) = Inl TypeError"
proof -
  have "JArray [JNumber (Fin 5)] \<noteq> JArray (map JArray rings)" for rings
    by (cases rings) simp_all
  then show ?thesis
    using export_coerces_or_throws [of 255 0 0
      "[[JArray [JNumber (Fin 1), JNumber (Fin 2)], JNumber (Fin 5)]]" "start 600 400 []"
      "JArray [JNumber (Fin 5)]"]
    by (simp add: iterable_def)
qed

text \<open>
  A ring with a 3-tuple and a 1-tuple is exported without any error: the 3-tuple
  loses its third element and the 1-tuple gets \<open>null\<close> as its second.
\<close>

theorem malformed_entries_exported:
  "\<not> two_tuples (JArray [JArray [JArray [JNumber (Fin 1), JNumber (Fin 2), JNumber (Fin 3)],
                                  JArray [JNumber (Fin 4)]]])
   \<and> exportGeoJSON
       (JArray [JArray [JArray [JNumber (Fin 1), JNumber (Fin 2), JNumber (Fin 3)],
                        JArray [JNumber (Fin 4)]]])
       (255, 0, 0) (start 600 400 []) =
     Inr ((start 600 400 [])\<lparr>downloads :=
       [\<lparr>file_name = ''features.geojson'', mime_type = ''application/json'',
         json_of = JObject [
           (''type'', JString ''FeatureCollection''),
           (''features'', JArray [
              JObject [
                (''type'', JString ''Feature''),
                (''geometry'', JObject [
                   (''type'', JString ''Polygon''),
                   (''coordinates'', JArray [JArray [
                      JArray [JNumber (Fin 1), JNumber (Fin 2)],
                      JArray [JNumber (Fin 4), JNull]]])]),
                (''properties'', JObject [
                   (''id'', JNumber (Fin 0)),
                   (''color'', JString ''rgb(255,0,0)'')])]])]\<rparr>]\<rparr>)"
  using number_of_nat_exact [of 0]
  by (simp add: two_tuples_def ring_of_def exportGeoJSON_def geojson_def features_def feature_def
      elements_def point_def items_def elem_def rgb_string_def decimal.simps start_def
      enumerate_eq_zip)

text \<open>
  Claim C7. Exporting no feature returns normally and saves a FeatureCollection whose
  \<open>features\<close> array is empty.
\<close>

theorem export_empty:
  "exportGeoJSON (JArray []) c st =
     Inr (st\<lparr>downloads := downloads st @
       [\<lparr>file_name = ''features.geojson'', mime_type = ''application/json'',
         json_of = JObject [(''type'', JString ''FeatureCollection''), (''features'', JArray [])]\<rparr>]\<rparr>)"
  by (simp add: exportGeoJSON_def geojson_def features_def elements_def)

text \<open>
  Claim C10. What \<open>exportGeoJSON\<close> does is the same from any two sessions: whether it
  throws, and the name, the type and the document of the file it saves, are determined
  by the polygons and the colour alone, whatever the raster, the bounds and the
  features picked so far.
\<close>

theorem export_depends_on_arguments_only:
  "exported_file (exportGeoJSON polygons c st1) = exported_file (exportGeoJSON polygons c st2)
   \<and> exported_file (exportGeoJSON polygons c st1) =
       (case geojson polygons c of
          Inl err \<Rightarrow> None
        | Inr doc \<Rightarrow>
            Some \<lparr>file_name = ''features.geojson'', mime_type = ''application/json'',
                  json_of = JSON_stringify doc\<rparr>)
   \<and> isl (exportGeoJSON polygons c st1) = isl (exportGeoJSON polygons c st2)"
  by (cases "geojson polygons c") (simp_all add: exported_file_def exportGeoJSON_def)

end
